theory Spec2Isabelle
  imports Complex_Main
begin

section \<open>JavaScript objects used as dictionaries\<close>

text \<open>
  The status page keeps its dictionaries (\<^verbatim>\<open>endpoints\<close>, \<^verbatim>\<open>snap.ep\<close>,
  \<^verbatim>\<open>currentStatus\<close>, \<^verbatim>\<open>graph\<close>) in plain JavaScript objects keyed by endpoint id.
  An object is modelled as an association list in insertion order: the first binding
  of a key is the live one, \<^verbatim>\<open>o[k] = v\<close> overwrites the binding in place when the key
  exists and appends it otherwise, and \<^verbatim>\<open>Object.keys\<close> lists every key once.
  Endpoint ids are ordinary names such as \<^verbatim>\<open>mainnet-evm-rpc\<close>, and the history
  store is modelled for such ids: \<open>obj_get\<close> reads own keys only, and keys that look
  like array indices, which \<^verbatim>\<open>Object.keys\<close> lists first, are not modelled. A lookup
  \<^verbatim>\<open>o[k]\<close> on a plain object also finds the members inherited from
  \<^verbatim>\<open>Object.prototype\<close>; the check table, the dependency graph and the visited map are
  read through \<open>js_lookup\<close> below, which models that.
\<close>

type_synonym 'v obj = "(string \<times> 'v) list"

definition obj_get :: "'v obj \<Rightarrow> string \<Rightarrow> 'v option" where
  "obj_get ob k = map_of ob k"

fun obj_set :: "'v obj \<Rightarrow> string \<Rightarrow> 'v \<Rightarrow> 'v obj" where
  "obj_set [] k v = [(k, v)]"
| "obj_set ((k', v') # ob) k v =
     (if k' = k then (k, v) # ob else (k', v') # obj_set ob k v)"


text \<open>
  The property names of \<^verbatim>\<open>Object.prototype\<close>. A lookup \<^verbatim>\<open>o[k]\<close> on a plain object
  yields the own value of \<open>k\<close>, else the inherited member when \<open>k\<close> is one of these
  names (a function, or the prototype object itself for \<^verbatim>\<open>__proto__\<close>: truthy in
  either case), else \<^verbatim>\<open>undefined\<close>.
\<close>

definition Object_prototype_members :: "string list" where
  "Object_prototype_members =
     [''constructor'', ''__defineGetter__'', ''__defineSetter__'', ''hasOwnProperty'',
      ''__lookupGetter__'', ''__lookupSetter__'', ''isPrototypeOf'',
      ''propertyIsEnumerable'', ''toString'', ''valueOf'', ''__proto__'',
      ''toLocaleString'']"

definition ordinary :: "string \<Rightarrow> bool" where
  "ordinary k \<longleftrightarrow> k \<notin> set Object_prototype_members"

datatype 'v lookup = Own 'v | Inherited | Absent

definition js_lookup :: "'v obj \<Rightarrow> string \<Rightarrow> 'v lookup" where
  "js_lookup ob k =
     (case obj_get ob k of
        Some v \<Rightarrow> Own v
      | None \<Rightarrow> if ordinary k then Absent else Inherited)"

section \<open>Check results (lib/health.js, \<^verbatim>\<open>result\<close>)\<close>

text \<open>
  A JavaScript number that may be \<^verbatim>\<open>NaN\<close> (the value of \<^verbatim>\<open>getTime()\<close> on an
  unparseable date, and of \<^verbatim>\<open>Math.round\<close> applied to it).
\<close>

datatype jsnum = Num int | NaN

text \<open>
  The \<^verbatim>\<open>details\<close> bag, with the keys written by the two Cosmos probes; a key that
  was never assigned is \<open>None\<close>, and a count that was assigned \<^verbatim>\<open>null\<close> is
  \<open>Some None\<close>.
\<close>

record details =
  blockHeight :: "jsnum option"
  latestBlockTime :: "string option"
  catchingUp :: "bool option"
  chainId :: "string option"
  blockAgeSec :: "jsnum option"
  peerCount :: "int option option"
  bondedValidators :: "int option option"

definition no_details :: details where
  "no_details = \<lparr>blockHeight = None, latestBlockTime = None, catchingUp = None,
     chainId = None, blockAgeSec = None, peerCount = None, bondedValidators = None\<rparr>"

text \<open>
  The result record built by \<^verbatim>\<open>result(ep, status, responseTimeMs, details, error)\<close>.
  \<open>responseTimeMs\<close> is optional because \<^verbatim>\<open>recordSnapshot\<close> guards against a missing
  value; \<open>None\<close> stands for every falsy non-number. The remaining pass-through fields
  (timestamp, description, owner, docsUrl, repoUrl, tags, impactDescription) play no
  part in any computation and are left out.
\<close>

record check_result =
  rid :: string
  rname :: string
  rurl :: string
  rcategory :: string
  renvironment :: string
  rstatus :: string
  responseTimeMs :: "int option"
  rdetails :: details
  rerror :: "string option"
  rdependsOn :: "string list"
  rimpacts :: "string list"

section \<open>History ring buffer (lib/history.js)\<close>

text \<open>
  A snapshot \<^verbatim>\<open>{t, ep}\<close> with \<^verbatim>\<open>ep[id] = {s, ms}\<close>; the fields are named
  \<open>snap_t\<close>, \<open>snap_ep\<close>, \<open>ep_s\<close> and \<open>ep_ms\<close> here.
\<close>

record ep_entry =
  ep_s :: int
  ep_ms :: int

record snapshot =
  snap_t :: int
  snap_ep :: "ep_entry obj"

record history =
  snapshots :: "snapshot list"

definition MAX_SNAPSHOTS :: nat where
  "MAX_SNAPSHOTS = 120"

text \<open>\<^verbatim>\<open>r.status === 'UP' ? 1 : r.status === 'DEGRADED' ? 2 : 0\<close>\<close>

definition status_code :: "string \<Rightarrow> int" where
  "status_code st = (if st = ''UP'' then 1 else if st = ''DEGRADED'' then 2 else 0)"

text \<open>\<^verbatim>\<open>r.responseTimeMs || 0\<close>: a missing value and the number 0 are both falsy.\<close>

definition or_zero :: "int option \<Rightarrow> int" where
  "or_zero v = (case v of None \<Rightarrow> 0 | Some n \<Rightarrow> if n = 0 then 0 else n)"

definition encode_result :: "check_result \<Rightarrow> ep_entry" where
  "encode_result r = \<lparr>ep_s = status_code (rstatus r), ep_ms = or_zero (responseTimeMs r)\<rparr>"

text \<open>The loop \<^verbatim>\<open>for (const r of results) endpoints[r.id] = {...}\<close>.\<close>

fun build_endpoints :: "ep_entry obj \<Rightarrow> check_result list \<Rightarrow> ep_entry obj" where
  "build_endpoints endpoints [] = endpoints"
| "build_endpoints endpoints (r # rs) =
     build_endpoints (obj_set endpoints (rid r) (encode_result r)) rs"

text \<open>\<^verbatim>\<open>xs.slice(-n)\<close> for a positive \<open>n\<close>: the last \<open>n\<close> elements, or all of them.\<close>

definition slice_last :: "nat \<Rightarrow> 'a list \<Rightarrow> 'a list" where
  "slice_last n xs = drop (length xs - n) xs"

text \<open>
  \<^verbatim>\<open>recordSnapshot(history, results)\<close>; the reading of \<^verbatim>\<open>Date.now()\<close> is the
  parameter \<open>now\<close>.
\<close>

definition new_snapshot :: "int \<Rightarrow> check_result list \<Rightarrow> snapshot" where
  "new_snapshot now results = \<lparr>snap_t = now, snap_ep = build_endpoints [] results\<rparr>"

definition recordSnapshot :: "int \<Rightarrow> history \<Rightarrow> check_result list \<Rightarrow> history" where
  "recordSnapshot now h results =
     (let pushed = snapshots h @ [new_snapshot now results]
      in if length pushed > MAX_SNAPSHOTS
         then h\<lparr>snapshots := slice_last MAX_SNAPSHOTS pushed\<rparr>
         else h\<lparr>snapshots := pushed\<rparr>)"

text \<open>
  Successive check cycles of the request handler (api/health.js): each cycle records
  one snapshot into the history left by the previous one.
\<close>

fun record_cycles :: "history \<Rightarrow> (int \<times> check_result list) list \<Rightarrow> history" where
  "record_cycles h [] = h"
| "record_cycles h ((now, results) # cycles) =
     record_cycles (recordSnapshot now h results) cycles"

subsection \<open>Sparklines\<close>




subsection \<open>Uptimes\<close>







subsection \<open>Incidents\<close>














section \<open>Endpoint registry (lib/health-config.js)\<close>

text \<open>
  An endpoint descriptor. \<open>ep_environment\<close>, \<open>ep_dependsOn\<close> and \<open>ep_impacts\<close> are
  optional in the registry (the code reads them with \<^verbatim>\<open>|| 'prod'\<close> and \<^verbatim>\<open>|| []\<close>).
  The registry \<^verbatim>\<open>ENDPOINTS\<close> itself is static data and is a parameter of every
  function that reads it. The fields that only the request layer and the other probes
  read (\<^verbatim>\<open>timeout\<close>, \<^verbatim>\<open>expectedChainId\<close>, \<^verbatim>\<open>expectedField\<close>, \<^verbatim>\<open>peerIp\<close>,
  \<^verbatim>\<open>publicRpc\<close>, \<^verbatim>\<open>healthUrl\<close>) and the display fields are left out.
\<close>

record endpoint =
  ep_id :: string
  ep_name :: string
  ep_url :: string
  ep_category :: string
  ep_environment :: "string option"
  ep_checkType :: string
  ep_enabled :: bool
  ep_dependsOn :: "string list option"
  ep_impacts :: "string list option"

definition CHAIN_HALT_THRESHOLD_SECONDS :: int where
  "CHAIN_HALT_THRESHOLD_SECONDS = 60"



text \<open>A string used as a condition: absent and empty are falsy.\<close>

definition truthy :: "string option \<Rightarrow> bool" where
  "truthy v = (case v of None \<Rightarrow> False | Some str \<Rightarrow> str \<noteq> [])"


section \<open>Health check engine (lib/health.js)\<close>

text \<open>
  A value caught by \<^verbatim>\<open>catch (err)\<close>: \<^verbatim>\<open>undefined\<close> or \<^verbatim>\<open>null\<close>, or a value with
  the three things the engine reads from it: \<^verbatim>\<open>err.code\<close>, \<^verbatim>\<open>err.message\<close> (empty
  when absent) and \<^verbatim>\<open>String(err)\<close>. An awaited call either fulfils (\<open>Inr\<close>) or
  rejects (\<open>Inl\<close>).
\<close>

record js_error =
  err_code :: "string option"
  err_message :: string
  err_string :: string

datatype thrown = Nullish | Err js_error

type_synonym 'a promise = "thrown + 'a"

text \<open>\<^verbatim>\<open>new Error(msg)\<close>\<close>

definition new_Error :: "string \<Rightarrow> thrown" where
  "new_Error msg = Err \<lparr>err_code = None, err_message = msg,
     err_string = (if msg = [] then ''Error'' else ''Error: '' @ msg)\<rparr>"

text \<open>Decimal rendering of an integer inside a template string.\<close>

definition digit_char :: "nat \<Rightarrow> char" where
  "digit_char d = ''0123456789'' ! d"

fun digits :: "nat \<Rightarrow> string" where
  "digits n = (if n < 10 then [digit_char n] else digits (n div 10) @ [digit_char (n mod 10)])"

declare digits.simps [simp del]

definition decimal :: "int \<Rightarrow> string" where
  "decimal i = (if i < 0 then CHR ''-'' # digits (nat (- i)) else digits (nat i))"

text \<open>
  \<^verbatim>\<open>result(ep, status, responseTimeMs, details, error)\<close>; \<^verbatim>\<open>error || null\<close> turns an
  absent or empty message into \<open>None\<close>.
\<close>

definition result :: "endpoint \<Rightarrow> string \<Rightarrow> int \<Rightarrow> details \<Rightarrow> string option \<Rightarrow> check_result" where
  "result ep status ms det err =
     \<lparr>rid = ep_id ep, rname = ep_name ep, rurl = ep_url ep, rcategory = ep_category ep,
      renvironment = (case ep_environment ep of
                        Some env \<Rightarrow> if env = [] then ''prod'' else env
                      | None \<Rightarrow> ''prod''),
      rstatus = status, responseTimeMs = Some ms, rdetails = det,
      rerror = (if truthy err then err else None),
      rdependsOn = (case ep_dependsOn ep of Some ds \<Rightarrow> ds | None \<Rightarrow> []),
      rimpacts = (case ep_impacts ep of Some is \<Rightarrow> is | None \<Rightarrow> [])\<rparr>"

subsection \<open>The Cosmos probes\<close>

text \<open>
  What a probe learns from one HTTP round trip: the status code and the outcome of
  \<^verbatim>\<open>JSON.parse(res.body)\<close> and of reading the probe's fields from it (a rejection
  when parsing or reading them throws). The values that
  platform functions compute from those fields (\<^verbatim>\<open>parseInt(x, 10)\<close>,
  \<^verbatim>\<open>new Date(x).getTime()\<close>) are part of the reply.
\<close>

record 'b reply =
  statusCode :: int
  parsed :: "'b promise"

text \<open>\<^verbatim>\<open>sync_info\<close> of a Tendermint \<^verbatim>\<open>/status\<close> reply.\<close>

record sync_info =
  si_block_height :: jsnum
  si_block_time :: string
  si_block_time_ms :: jsnum
  si_catching_up :: bool

text \<open>The header of the latest block of the REST API.\<close>

record block_header =
  bh_height :: jsnum
  bh_time :: string
  bh_time_ms :: jsnum
  bh_chain_id :: "string option"

text \<open>
  Everything \<^verbatim>\<open>checkCosmosRpc\<close> obtains from outside: the three readings of
  \<^verbatim>\<open>Date.now()\<close> (on entry, when the block age is computed, when the result is
  built), the reply to \<^verbatim>\<open>GET /status\<close> with its \<^verbatim>\<open>sync_info\<close> if any, and the reply
  to \<^verbatim>\<open>GET /net_info\<close> with the peer count derived from it (\<open>None\<close> for null).
\<close>

record rpc_input =
  rpc_start :: int
  rpc_status :: "sync_info option reply promise"
  rpc_now :: int
  rpc_net_info :: "int option reply promise"
  rpc_end :: int

text \<open>
  The same for \<^verbatim>\<open>checkCosmosRest\<close>: the latest block with its header if any, and the
  bonded validator list with its length (\<open>None\<close> for null).
\<close>

record rest_input =
  rest_start :: int
  rest_block :: "block_header option reply promise"
  rest_now :: int
  rest_validators :: "int option reply promise"
  rest_end :: int

text \<open>
  \<^verbatim>\<open>(Date.now() - new Date(time).getTime()) / 1000\<close>, \<open>None\<close> for \<^verbatim>\<open>NaN\<close>; numbers
  are idealised as exact reals.
\<close>

definition block_age :: "int \<Rightarrow> jsnum \<Rightarrow> real option" where
  "block_age now time_ms =
     (case time_ms of Num ms \<Rightarrow> Some (real_of_int (now - ms) / 1000) | NaN \<Rightarrow> None)"

text \<open>\<^verbatim>\<open>Math.round\<close>, which rounds halves upwards as \<open>round\<close> does.\<close>

definition Math_round :: "real option \<Rightarrow> jsnum" where
  "Math_round x = (case x of Some v \<Rightarrow> Num (round v) | None \<Rightarrow> NaN)"

text \<open>\<^verbatim>\<open>blockAge > config.CHAIN_HALT_THRESHOLD_SECONDS\<close>; a comparison with \<^verbatim>\<open>NaN\<close> is false.\<close>

definition exceeds_halt_threshold :: "real option \<Rightarrow> bool" where
  "exceeds_halt_threshold x =
     (case x of Some v \<Rightarrow> v > real_of_int CHAIN_HALT_THRESHOLD_SECONDS | None \<Rightarrow> False)"

definition show_jsnum :: "jsnum \<Rightarrow> string" where
  "show_jsnum x = (case x of Num i \<Rightarrow> decimal i | NaN \<Rightarrow> ''NaN'')"

text \<open>
  The message \<^verbatim>\<open>Possible chain halt - last block Ns ago\<close>, whose dash is an em dash,
  written here as its three UTF-8 bytes.
\<close>

definition halt_message :: "real option \<Rightarrow> string" where
  "halt_message blockAge =
     ''Possible chain halt '' @ [CHR 0xE2, CHR 0x80, CHR 0x94] @ '' last block ''
       @ show_jsnum (Math_round blockAge) @ ''s ago''"

definition checkCosmosRpc :: "rpc_input \<Rightarrow> endpoint \<Rightarrow> check_result promise" where
  "checkCosmosRpc inp ep =
     (case rpc_status inp of
        Inl err \<Rightarrow> Inl err
      | Inr statusRes \<Rightarrow>
          if statusCode statusRes \<noteq> 200
          then Inl (new_Error (''HTTP '' @ decimal (statusCode statusRes)))
          else
            (case parsed statusRes of
               Inl err \<Rightarrow> Inl err
             | Inr syncInfo \<Rightarrow>
                 let blockAge = (case syncInfo of
                                   Some si \<Rightarrow> block_age (rpc_now inp) (si_block_time_ms si)
                                 | None \<Rightarrow> None);
                     details = (case syncInfo of
                        Some si \<Rightarrow>
                          no_details\<lparr>blockHeight := Some (si_block_height si),
                                     latestBlockTime := Some (si_block_time si),
                                     catchingUp := Some (si_catching_up si),
                                     blockAgeSec := Some (Math_round blockAge)\<rparr>
                      | None \<Rightarrow> no_details)
                 in if syncInfo \<noteq> None \<and> exceeds_halt_threshold blockAge
                    then Inr (result ep ''DEGRADED'' (rpc_end inp - rpc_start inp) details
                                (Some (halt_message blockAge)))
                    else if (case syncInfo of Some si \<Rightarrow> si_catching_up si | None \<Rightarrow> False)
                    then Inr (result ep ''DEGRADED'' (rpc_end inp - rpc_start inp) details
                                (Some ''Node is catching up''))
                    else
                      let details =
                        (case rpc_net_info inp of
                           Inl err \<Rightarrow> details
                         | Inr netRes \<Rightarrow>
                             if statusCode netRes = 200
                             then (case parsed netRes of
                                     Inl err \<Rightarrow> details
                                   | Inr peers \<Rightarrow> details\<lparr>peerCount := Some peers\<rparr>)
                             else details)
                      in Inr (result ep ''UP'' (rpc_end inp - rpc_start inp) details None)))"

definition checkCosmosRest :: "rest_input \<Rightarrow> endpoint \<Rightarrow> check_result promise" where
  "checkCosmosRest inp ep =
     (case rest_block inp of
        Inl err \<Rightarrow> Inl err
      | Inr blockRes \<Rightarrow>
          if statusCode blockRes \<noteq> 200
          then Inl (new_Error (''HTTP '' @ decimal (statusCode blockRes)))
          else
            (case parsed blockRes of
               Inl err \<Rightarrow> Inl err
             | Inr header \<Rightarrow>
                 let blockAge = (case header of
                                   Some bh \<Rightarrow> block_age (rest_now inp) (bh_time_ms bh)
                                 | None \<Rightarrow> None);
                     details = (case header of
                        Some bh \<Rightarrow>
                          no_details\<lparr>blockHeight := Some (bh_height bh),
                                     latestBlockTime := Some (bh_time bh),
                                     chainId := bh_chain_id bh,
                                     blockAgeSec := Some (Math_round blockAge)\<rparr>
                      | None \<Rightarrow> no_details)
                 in if header \<noteq> None \<and> exceeds_halt_threshold blockAge
                    then Inr (result ep ''DEGRADED'' (rest_end inp - rest_start inp) details
                                (Some (halt_message blockAge)))
                    else
                      let details =
                        (case rest_validators inp of
                           Inl err \<Rightarrow> details
                         | Inr valRes \<Rightarrow>
                             if statusCode valRes = 200
                             then (case parsed valRes of
                                     Inl err \<Rightarrow> details
                                   | Inr bonded \<Rightarrow> details\<lparr>bondedValidators := Some bonded\<rparr>)
                             else details)
                      in Inr (result ep ''UP'' (rest_end inp - rest_start inp) details None)))"

text \<open>Sample replies for the examples: a node whose latest block is 120 seconds old.\<close>

definition stale_rpc :: rpc_input where
  "stale_rpc =
     \<lparr>rpc_start = 1700000120000,
      rpc_status = Inr \<lparr>statusCode = 200,
        parsed = Inr (Some \<lparr>si_block_height = Num 4242, si_block_time = ''2023-11-14T22:13:20Z'',
                            si_block_time_ms = Num 1700000000000, si_catching_up = False\<rparr>)\<rparr>,
      rpc_now = 1700000120000,
      rpc_net_info = Inl (new_Error ''timeout''),
      rpc_end = 1700000120035\<rparr>"

definition stale_rest :: rest_input where
  "stale_rest =
     \<lparr>rest_start = 1700000120000,
      rest_block = Inr \<lparr>statusCode = 200,
        parsed = Inr (Some \<lparr>bh_height = Num 4242, bh_time = ''2023-11-14T22:13:20Z'',
                            bh_time_ms = Num 1700000000000, bh_chain_id = Some ''integra-1''\<rparr>)\<rparr>,
      rest_now = 1700000120000,
      rest_validators = Inl (new_Error ''timeout''),
      rest_end = 1700000120035\<rparr>"

subsection \<open>Check registry and runner\<close>

text \<open>
  The eleven check functions of \<^verbatim>\<open>CHECK_FNS\<close>. What each of them does for an endpoint
  depends on the network, so their behaviour is a parameter: each field gives the
  outcome of awaiting that check function on an endpoint, a result or a thrown value
  (every request carries a timeout, so the awaited call settles). The table itself is
  a plain object with these eleven own keys.
\<close>

type_synonym probe = "endpoint \<Rightarrow> check_result promise"

record probes =
  fn_evm_rpc :: probe
  fn_cosmos_rpc :: probe
  fn_cosmos_rest :: probe
  fn_http_json :: probe
  fn_http_get :: probe
  fn_websocket :: probe
  fn_api_health :: probe
  fn_http_reachable :: probe
  fn_deep_health :: probe
  fn_graphql :: probe
  fn_cosmos_peer_check :: probe

definition CHECK_FNS :: "probes \<Rightarrow> probe obj" where
  "CHECK_FNS ps =
     [(''evm-rpc'', fn_evm_rpc ps),
      (''cosmos-rpc'', fn_cosmos_rpc ps),
      (''cosmos-rest'', fn_cosmos_rest ps),
      (''http-json'', fn_http_json ps),
      (''http-get'', fn_http_get ps),
      (''websocket'', fn_websocket ps),
      (''api-health'', fn_api_health ps),
      (''http-reachable'', fn_http_reachable ps),
      (''deep-health'', fn_deep_health ps),
      (''graphql'', fn_graphql ps),
      (''cosmos-peer-check'', fn_cosmos_peer_check ps)]"

text \<open>
  What \<^verbatim>\<open>runCheck\<close> and \<^verbatim>\<open>checkAll\<close> hand on for an endpoint: a Check Result, or,
  when the looked-up function is an inherited member and not a probe, the string or
  the endpoint descriptor that the member returns.
\<close>

datatype js_value = Check check_result | Text string | Descriptor endpoint

text \<open>
  \<^verbatim>\<open>new TypeError(msg)\<close>. The wording of the messages of the TypeErrors below is
  the engine's; no statement depends on it.
\<close>

definition new_TypeError :: "string \<Rightarrow> thrown" where
  "new_TypeError msg = Err \<lparr>err_code = None, err_message = msg,
     err_string = (if msg = [] then ''TypeError'' else ''TypeError: '' @ msg)\<rparr>"

text \<open>
  \<^verbatim>\<open>await fn(ep)\<close> when \<^verbatim>\<open>fn\<close> is the member of \<^verbatim>\<open>Object.prototype\<close> named \<open>k\<close>,
  called in strict mode without a receiver: \<^verbatim>\<open>Object(ep)\<close> returns the descriptor,
  \<^verbatim>\<open>toString\<close> returns \<^verbatim>\<open>[object Undefined]\<close>, \<^verbatim>\<open>__proto__\<close> is an object and not
  callable, and every other member throws a TypeError when it converts the missing
  receiver to an object.
\<close>

definition call_inherited :: "string \<Rightarrow> endpoint \<Rightarrow> js_value promise" where
  "call_inherited k ep =
     (if k = ''constructor'' then Inr (Descriptor ep)
      else if k = ''toString'' then Inr (Text ''[object Undefined]'')
      else if k = ''__proto__'' then Inl (new_TypeError ''fn is not a function'')
      else Inl (new_TypeError ''Cannot convert undefined or null to object''))"

definition isFirewall :: "js_error \<Rightarrow> bool" where
  "isFirewall err \<longleftrightarrow>
     err_code err = Some ''ECONNREFUSED'' \<or> err_code err = Some ''ECONNRESET''
     \<or> err_code err = Some ''EHOSTUNREACH''"

text \<open>
  Reading \<^verbatim>\<open>err.code\<close> of \<^verbatim>\<open>undefined\<close> or \<^verbatim>\<open>null\<close> inside the catch block raises a
  TypeError, which rejects the promise of \<^verbatim>\<open>runCheck\<close>.
\<close>

definition nullish_TypeError :: thrown where
  "nullish_TypeError = Err \<lparr>err_code = None,
     err_message = ''Cannot read properties of undefined (reading 'code')'',
     err_string = ''TypeError: Cannot read properties of undefined (reading 'code')''\<rparr>"

text \<open>\<^verbatim>\<open>err.message || String(err)\<close>\<close>

definition error_text :: "js_error \<Rightarrow> string" where
  "error_text err = (if err_message err \<noteq> [] then err_message err else err_string err)"

text \<open>The catch block of \<^verbatim>\<open>runCheck\<close>.\<close>

definition catch_block :: "endpoint \<Rightarrow> thrown \<Rightarrow> js_value promise" where
  "catch_block ep thrown_value =
     (case thrown_value of
        Nullish \<Rightarrow> Inl nullish_TypeError
      | Err err \<Rightarrow>
          let status = (if ep_category ep = ''validators'' \<and> isFirewall err
                        then ''DEGRADED'' else ''DOWN'');
              errMsg = (if ep_category ep = ''validators'' \<and> isFirewall err
                        then ''Unreachable (likely firewalled)''
                        else error_text err)
          in Inr (Check (result ep status 0 no_details (Some errMsg))))"

text \<open>
  \<^verbatim>\<open>runCheck(ep)\<close>: \<^verbatim>\<open>const fn = CHECK_FNS[ep.checkType]; if (!fn) return ...;\<close>
  \<^verbatim>\<open>try { return await fn(ep); } catch (err) { ... }\<close>. An inherited member is truthy,
  so it passes \<^verbatim>\<open>!fn\<close> and is called like a probe.
\<close>

definition runCheck :: "probes \<Rightarrow> endpoint \<Rightarrow> js_value promise" where
  "runCheck ps ep =
     (case js_lookup (CHECK_FNS ps) (ep_checkType ep) of
        Absent \<Rightarrow>
          Inr (Check (result ep ''DOWN'' 0 no_details
                        (Some (''Unknown check type: '' @ ep_checkType ep))))
      | Own fn \<Rightarrow>
          (case fn ep of
             Inr r \<Rightarrow> Inr (Check r)
           | Inl thrown_value \<Rightarrow> catch_block ep thrown_value)
      | Inherited \<Rightarrow>
          (case call_inherited (ep_checkType ep) ep of
             Inr v \<Rightarrow> Inr v
           | Inl thrown_value \<Rightarrow> catch_block ep thrown_value))"






text \<open>Sample data for the examples: an endpoint, and a network that refuses every connection.\<close>

definition sample_endpoint :: "string \<Rightarrow> string \<Rightarrow> string \<Rightarrow> endpoint" where
  "sample_endpoint i cat ct =
     \<lparr>ep_id = i, ep_name = i, ep_url = ''http://10.0.0.1:26657'', ep_category = cat,
      ep_environment = Some ''prod'', ep_checkType = ct, ep_enabled = True,
      ep_dependsOn = None, ep_impacts = None\<rparr>"

definition refused :: js_error where
  "refused = \<lparr>err_code = Some ''ECONNREFUSED'',
     err_message = ''connect ECONNREFUSED 10.0.0.1:26657'',
     err_string = ''Error: connect ECONNREFUSED 10.0.0.1:26657''\<rparr>"

definition all_refused :: probes where
  "all_refused =
     \<lparr>fn_evm_rpc = (\<lambda>ep. Inl (Err refused)), fn_cosmos_rpc = (\<lambda>ep. Inl (Err refused)),
      fn_cosmos_rest = (\<lambda>ep. Inl (Err refused)), fn_http_json = (\<lambda>ep. Inl (Err refused)),
      fn_http_get = (\<lambda>ep. Inl (Err refused)), fn_websocket = (\<lambda>ep. Inl (Err refused)),
      fn_api_health = (\<lambda>ep. Inl (Err refused)), fn_http_reachable = (\<lambda>ep. Inl (Err refused)),
      fn_deep_health = (\<lambda>ep. Inl (Err refused)), fn_graphql = (\<lambda>ep. Inl (Err refused)),
      fn_cosmos_peer_check = (\<lambda>ep. Inl (Err refused))\<rparr>"

text \<open>
  A connection error with an empty message, as \<^verbatim>\<open>Object.assign(new Error(''),
  { code: 'ECONNREFUSED' })\<close>, and a network on which every probe throws one value.
\<close>

definition refused_no_message :: js_error where
  "refused_no_message = \<lparr>err_code = Some ''ECONNREFUSED'', err_message = [],
     err_string = ''Error''\<rparr>"

definition all_throw :: "thrown \<Rightarrow> probes" where
  "all_throw v =
     \<lparr>fn_evm_rpc = (\<lambda>ep. Inl v), fn_cosmos_rpc = (\<lambda>ep. Inl v),
      fn_cosmos_rest = (\<lambda>ep. Inl v), fn_http_json = (\<lambda>ep. Inl v),
      fn_http_get = (\<lambda>ep. Inl v), fn_websocket = (\<lambda>ep. Inl v),
      fn_api_health = (\<lambda>ep. Inl v), fn_http_reachable = (\<lambda>ep. Inl v),
      fn_deep_health = (\<lambda>ep. Inl v), fn_graphql = (\<lambda>ep. Inl v),
      fn_cosmos_peer_check = (\<lambda>ep. Inl v)\<rparr>"

section \<open>Dependency graph (lib/health-config.js)\<close>

text \<open>
  A graph node \<^verbatim>\<open>{ dependsOn: [...], requiredBy: [...] }\<close>; the graph is an object
  keyed by endpoint id.
\<close>

record node =
  dependsOn :: "string list"
  requiredBy :: "string list"

type_synonym graph = "node obj"

definition empty_node :: node where
  "empty_node = \<lparr>dependsOn = [], requiredBy = []\<rparr>"

text \<open>\<^verbatim>\<open>xs || []\<close> for an optional list of the registry.\<close>

definition or_empty :: "string list option \<Rightarrow> string list" where
  "or_empty xs = (case xs of None \<Rightarrow> [] | Some ys \<Rightarrow> ys)"

text \<open>
  \<^verbatim>\<open>if (!graph[k]) graph[k] = { dependsOn: [], requiredBy: [] }\<close>. The graph is a
  plain object, so for a \<open>k\<close> that names a member of \<^verbatim>\<open>Object.prototype\<close> the lookup
  finds the inherited member and no node is created.
\<close>

definition ensure_node :: "graph \<Rightarrow> string \<Rightarrow> graph" where
  "ensure_node graph k =
     (case js_lookup graph k of
        Absent \<Rightarrow> obj_set graph k empty_node
      | Inherited \<Rightarrow> graph
      | Own n \<Rightarrow> graph)"

text \<open>
  \<^verbatim>\<open>graph[k].dependsOn.push(v)\<close> and \<^verbatim>\<open>graph[k].requiredBy.push(v)\<close>. Reading a
  property of a missing node raises a TypeError, which is the result \<open>None\<close>; an
  inherited member has neither list, so the call of \<^verbatim>\<open>push\<close> or \<^verbatim>\<open>indexOf\<close> on
  \<^verbatim>\<open>undefined\<close> raises a TypeError as well.
\<close>

definition push_dependsOn :: "graph \<Rightarrow> string \<Rightarrow> string \<Rightarrow> graph option" where
  "push_dependsOn graph k v =
     (case js_lookup graph k of
        Absent \<Rightarrow> None
      | Inherited \<Rightarrow> None
      | Own n \<Rightarrow> Some (obj_set graph k (n\<lparr>dependsOn := dependsOn n @ [v]\<rparr>)))"

definition push_requiredBy :: "graph \<Rightarrow> string \<Rightarrow> string \<Rightarrow> graph option" where
  "push_requiredBy graph k v =
     (case js_lookup graph k of
        Absent \<Rightarrow> None
      | Inherited \<Rightarrow> None
      | Own n \<Rightarrow> Some (obj_set graph k (n\<lparr>requiredBy := requiredBy n @ [v]\<rparr>)))"

text \<open>
  \<^verbatim>\<open>if (graph[k].dependsOn.indexOf(v) === -1) graph[k].dependsOn.push(v)\<close>, and the same
  for \<^verbatim>\<open>requiredBy\<close>.
\<close>

definition add_dependsOn :: "graph \<Rightarrow> string \<Rightarrow> string \<Rightarrow> graph option" where
  "add_dependsOn graph k v =
     (case js_lookup graph k of
        Absent \<Rightarrow> None
      | Inherited \<Rightarrow> None
      | Own n \<Rightarrow> if v \<in> set (dependsOn n) then Some graph else push_dependsOn graph k v)"

definition add_requiredBy :: "graph \<Rightarrow> string \<Rightarrow> string \<Rightarrow> graph option" where
  "add_requiredBy graph k v =
     (case js_lookup graph k of
        Absent \<Rightarrow> None
      | Inherited \<Rightarrow> None
      | Own n \<Rightarrow> if v \<in> set (requiredBy n) then Some graph else push_requiredBy graph k v)"

text \<open>The first loop: a node for every registry entry.\<close>

fun init_nodes :: "graph \<Rightarrow> endpoint list \<Rightarrow> graph" where
  "init_nodes graph [] = graph"
| "init_nodes graph (ep # eps) = init_nodes (ensure_node graph (ep_id ep)) eps"

text \<open>The second loop: the edges declared by \<^verbatim>\<open>dependsOn\<close>, and their mirror.\<close>

fun deps_loop :: "graph \<Rightarrow> string \<Rightarrow> string list \<Rightarrow> graph option" where
  "deps_loop graph i [] = Some graph"
| "deps_loop graph i (depId # deps) =
     (case push_dependsOn graph i depId of
        None \<Rightarrow> None
      | Some g1 \<Rightarrow>
          (case push_requiredBy (ensure_node g1 depId) depId i of
             None \<Rightarrow> None
           | Some g2 \<Rightarrow> deps_loop g2 i deps))"

fun dependsOn_edges :: "graph \<Rightarrow> endpoint list \<Rightarrow> graph option" where
  "dependsOn_edges graph [] = Some graph"
| "dependsOn_edges graph (ep2 # eps) =
     (case deps_loop graph (ep_id ep2) (or_empty (ep_dependsOn ep2)) of
        None \<Rightarrow> None
      | Some g \<Rightarrow> dependsOn_edges g eps)"

text \<open>The third loop: the edges declared by \<^verbatim>\<open>impacts\<close>, unless already present.\<close>

fun imps_loop :: "graph \<Rightarrow> string \<Rightarrow> string list \<Rightarrow> graph option" where
  "imps_loop graph i [] = Some graph"
| "imps_loop graph i (impId # imps) =
     (case add_requiredBy (ensure_node graph i) i impId of
        None \<Rightarrow> None
      | Some g1 \<Rightarrow>
          (case add_dependsOn (ensure_node g1 impId) impId i of
             None \<Rightarrow> None
           | Some g2 \<Rightarrow> imps_loop g2 i imps))"

fun impacts_edges :: "graph \<Rightarrow> endpoint list \<Rightarrow> graph option" where
  "impacts_edges graph [] = Some graph"
| "impacts_edges graph (ep3 # eps) =
     (case imps_loop graph (ep_id ep3) (or_empty (ep_impacts ep3)) of
        None \<Rightarrow> None
      | Some g \<Rightarrow> impacts_edges g eps)"

definition getDependencyGraph :: "endpoint list \<Rightarrow> graph option" where
  "getDependencyGraph ENDPOINTS =
     (case dependsOn_edges (init_nodes [] ENDPOINTS) ENDPOINTS of
        None \<Rightarrow> None
      | Some g \<Rightarrow> impacts_edges g ENDPOINTS)"

text \<open>
  Reading the graph: whether it has a node of its own under \<open>k\<close>, and the lists
  \<^verbatim>\<open>dependsOn\<close> and \<^verbatim>\<open>requiredBy\<close> of that node, empty when there is none (the
  front end reads them with \<^verbatim>\<open>|| []\<close>, which also gives the empty list for an
  inherited member).
\<close>

definition has_node :: "graph \<Rightarrow> string \<Rightarrow> bool" where
  "has_node g k \<longleftrightarrow> obj_get g k \<noteq> None"

definition deps_of :: "graph \<Rightarrow> string \<Rightarrow> string list" where
  "deps_of g k = (case obj_get g k of None \<Rightarrow> [] | Some n \<Rightarrow> dependsOn n)"

definition reqs_of :: "graph \<Rightarrow> string \<Rightarrow> string list" where
  "reqs_of g k = (case obj_get g k of None \<Rightarrow> [] | Some n \<Rightarrow> requiredBy n)"




definition ordinary_graph :: "graph \<Rightarrow> bool" where
  "ordinary_graph g \<longleftrightarrow>
     (\<forall>k. (has_node g k \<longrightarrow> ordinary k) \<and> (\<forall>d \<in> set (reqs_of g k). ordinary d))"

definition dep_endpoint :: "string \<Rightarrow> string list \<Rightarrow> string list \<Rightarrow> endpoint" where
  "dep_endpoint i deps imps =
     (sample_endpoint i ''apis'' ''http-get'')\<lparr>ep_dependsOn := Some deps, ep_impacts := Some imps\<rparr>"

section \<open>Blast radius (front end, \<^verbatim>\<open>getBlastRadius\<close>) and impacted services\<close>

text \<open>
  The inner loop of \<^verbatim>\<open>getBlastRadius\<close> over the dependents of the current node:
  \<^verbatim>\<open>if (!visited.has(dep)) { visited.add(dep); count++; queue.push(dep); }\<close>.
  The state is the visited set, the queue and the count.
\<close>

fun visit_dependents ::
  "string list \<Rightarrow> string set \<times> string list \<times> nat \<Rightarrow> string set \<times> string list \<times> nat" where
  "visit_dependents [] st = st"
| "visit_dependents (dep # deps) (visited, queue, count) =
     (if dep \<notin> visited
      then visit_dependents deps (insert dep visited, queue @ [dep], count + 1)
      else visit_dependents deps (visited, queue, count))"

text \<open>
  The ids that occur in some \<^verbatim>\<open>requiredBy\<close> list of the graph: only they can ever
  be added to the visited set, which bounds the number of iterations.
\<close>

definition dependents_in :: "graph \<Rightarrow> string set" where
  "dependents_in graph = (\<Union>p \<in> set graph. set (requiredBy (snd p)))"

text \<open>
  The loop \<^verbatim>\<open>while (queue.length > 0) { current = queue.shift(); ... }\<close>; a missing
  node is skipped (\<^verbatim>\<open>if (!node) continue\<close>), and an inherited member has no
  \<^verbatim>\<open>requiredBy\<close>, so that \<^verbatim>\<open>node.requiredBy || []\<close> is empty and nothing is visited
  for it either.
\<close>

function blast_loop :: "graph \<Rightarrow> string set \<times> string list \<times> nat \<Rightarrow> nat" where
  "blast_loop graph (visited, [], count) = count"
| "blast_loop graph (visited, current # queue, count) =
     (case js_lookup graph current of
        Absent \<Rightarrow> blast_loop graph (visited, queue, count)
      | Inherited \<Rightarrow> blast_loop graph (visit_dependents [] (visited, queue, count))
      | Own node \<Rightarrow> blast_loop graph (visit_dependents (requiredBy node) (visited, queue, count)))"
  by pat_completeness auto

definition getBlastRadius :: "string \<Rightarrow> graph \<Rightarrow> nat" where
  "getBlastRadius endpointId graph = blast_loop graph ({endpointId}, [endpointId], 0)"

text \<open>
  The traversal of \<^verbatim>\<open>getBlastRadius\<close> with the list of the ids it counts in place of
  the count; the list is what the count is compared with.
\<close>

fun list_dependents ::
  "string list \<Rightarrow> string set \<times> string list \<times> string list
     \<Rightarrow> string set \<times> string list \<times> string list" where
  "list_dependents [] st = st"
| "list_dependents (dep # deps) (visited, queue, listed) =
     (if dep \<notin> visited
      then list_dependents deps (insert dep visited, queue @ [dep], listed @ [dep])
      else list_dependents deps (visited, queue, listed))"

function listing_loop :: "graph \<Rightarrow> string set \<times> string list \<times> string list \<Rightarrow> string list" where
  "listing_loop graph (visited, [], listed) = listed"
| "listing_loop graph (visited, current # queue, listed) =
     (case obj_get graph current of
        None \<Rightarrow> listing_loop graph (visited, queue, listed)
      | Some node \<Rightarrow>
          listing_loop graph (list_dependents (requiredBy node) (visited, queue, listed)))"
  by pat_completeness auto

text \<open>
  \<^verbatim>\<open>getImpactedServices\<close> (lib/health-config.js) builds the graph from the registry,
  which can throw, and collects the ids. Its visited map is a plain object:
  \<^verbatim>\<open>visited[dep]\<close> is truthy when \<open>dep\<close> was marked, and also when \<open>dep\<close> names a
  member of \<^verbatim>\<open>Object.prototype\<close>, so such an id is never collected. The marked ids are
  kept as a set.
\<close>

definition visited_has :: "string set \<Rightarrow> string \<Rightarrow> bool" where
  "visited_has visited k \<longleftrightarrow> k \<in> visited \<or> \<not> ordinary k"

fun collect_dependents ::
  "string list \<Rightarrow> string set \<times> string list \<times> string list
     \<Rightarrow> string set \<times> string list \<times> string list" where
  "collect_dependents [] st = st"
| "collect_dependents (dep # deps) (visited, queue, impacted) =
     (if \<not> visited_has visited dep
      then collect_dependents deps (insert dep visited, queue @ [dep], impacted @ [dep])
      else collect_dependents deps (visited, queue, impacted))"

function impacted_loop :: "graph \<Rightarrow> string set \<times> string list \<times> string list \<Rightarrow> string list" where
  "impacted_loop graph (visited, [], impacted) = impacted"
| "impacted_loop graph (visited, current # queue, impacted) =
     (case js_lookup graph current of
        Absent \<Rightarrow> impacted_loop graph (visited, queue, impacted)
      | Inherited \<Rightarrow> impacted_loop graph (collect_dependents [] (visited, queue, impacted))
      | Own node \<Rightarrow>
          impacted_loop graph (collect_dependents (requiredBy node) (visited, queue, impacted)))"
  by pat_completeness auto

definition getImpactedServices :: "endpoint list \<Rightarrow> string \<Rightarrow> string list option" where
  "getImpactedServices ENDPOINTS downId =
     (case getDependencyGraph ENDPOINTS of
        None \<Rightarrow> None
      | Some graph \<Rightarrow> Some (impacted_loop graph ({downId}, [downId], [])))"

text \<open>
  The specification's reading: the \<^verbatim>\<open>requiredBy\<close> relation of a graph, and the ids
  other than the start that are reachable from it along that relation.
\<close>

definition requiredBy_rel :: "graph \<Rightarrow> (string \<times> string) set" where
  "requiredBy_rel graph = {(a, b). b \<in> set (reqs_of graph a)}"

definition spec_blast_set :: "graph \<Rightarrow> string \<Rightarrow> string set" where
  "spec_blast_set graph start = (requiredBy_rel graph)\<^sup>* `` {start} - {start}"

text \<open>The ids that the inner loop adds, in order.\<close>

fun fresh_dependents :: "string set \<Rightarrow> string list \<Rightarrow> string list" where
  "fresh_dependents visited [] = []"
| "fresh_dependents visited (dep # deps) =
     (if dep \<notin> visited then dep # fresh_dependents (insert dep visited) deps
      else fresh_dependents visited deps)"

text \<open>
  The invariant of the traversal from \<open>start\<close>: the visited ids are the start and the
  listed ids, each listed once; queued ids are visited; visited ids are reachable;
  and every dependent of a visited id that has left the queue is visited.
\<close>

definition bfs_inv :: "graph \<Rightarrow> string \<Rightarrow> string set \<times> string list \<times> string list \<Rightarrow> bool" where
  "bfs_inv graph start st \<longleftrightarrow>
     (case st of (visited, queue, impacted) \<Rightarrow>
        visited = insert start (set impacted) \<and> distinct impacted \<and> start \<notin> set impacted
        \<and> set queue \<subseteq> visited
        \<and> visited \<subseteq> (requiredBy_rel graph)\<^sup>* `` {start}
        \<and> (\<forall>a \<in> visited - set queue. set (reqs_of graph a) \<subseteq> visited))"

text \<open>A graph with a cycle: A is required by B, and B is required by A and by C.\<close>

definition cyclic_graph :: graph where
  "cyclic_graph =
     [(''A'', \<lparr>dependsOn = [''B''], requiredBy = [''B'']\<rparr>),
      (''B'', \<lparr>dependsOn = [''A''], requiredBy = [''A'', ''C'']\<rparr>)]"

section \<open>Properties of the object model\<close>

lemma obj_get_obj_set: "obj_get (obj_set ob k v) k' = (if k' = k then Some v else obj_get ob k')"
  by (induction ob) (auto simp: obj_get_def)







section \<open>Recording a snapshot\<close>





lemma recordSnapshot_snapshots:
  "snapshots (recordSnapshot now h rs) =
     slice_last MAX_SNAPSHOTS (snapshots h @ [new_snapshot now rs])"
  by (simp add: recordSnapshot_def slice_last_def Let_def)

lemma slice_last_append:
  "slice_last n (slice_last n xs @ ys) = slice_last n (xs @ ys)"
proof (cases "length xs \<le> n")
  case True
  then show ?thesis by (simp add: slice_last_def)
next
  case False
  define m where "m = length xs - n"
  have len: "length xs = m + n"
    using False by (simp add: m_def)
  have "length (xs @ ys) - n = length ys + m"
    using len by simp
  then have "slice_last n (xs @ ys) = drop (length ys + m) (xs @ ys)"
    unfolding slice_last_def by (simp only:)
  also have "\<dots> = drop (length ys) (drop m (xs @ ys))"
    by (simp only: drop_drop)
  also have "drop m (xs @ ys) = drop m xs @ ys"
    using len by simp
  finally have rhs: "slice_last n (xs @ ys) = drop (length ys) (drop m xs @ ys)" .
  have "length (drop m xs @ ys) - n = length ys"
    using len by simp
  then have "slice_last n (drop m xs @ ys) = drop (length ys) (drop m xs @ ys)"
    unfolding slice_last_def by (simp only:)
  moreover have "slice_last n xs = drop m xs"
    by (simp add: slice_last_def m_def)
  ultimately show ?thesis
    using rhs by simp
qed

lemma record_cycles_snapshots:
  "snapshots (record_cycles h cycles) =
     slice_last MAX_SNAPSHOTS
       (snapshots h @ map (\<lambda>(now, rs). new_snapshot now rs) cycles)"
  if "length (snapshots h) \<le> MAX_SNAPSHOTS"
  using that
proof (induction cycles arbitrary: h)
  case Nil
  then show ?case by (simp add: slice_last_def)
next
  case (Cons c cycles)
  obtain now rs where c: "c = (now, rs)" by (cases c)
  have len: "length (snapshots (recordSnapshot now h rs)) \<le> MAX_SNAPSHOTS"
    by (simp add: recordSnapshot_snapshots slice_last_def MAX_SNAPSHOTS_def)
  have "snapshots (record_cycles h (c # cycles)) =
        slice_last MAX_SNAPSHOTS
          (slice_last MAX_SNAPSHOTS (snapshots h @ [new_snapshot now rs])
             @ map (\<lambda>(now, rs). new_snapshot now rs) cycles)"
    using Cons.IH [OF len] by (simp add: c recordSnapshot_snapshots)
  also have "\<dots> = slice_last MAX_SNAPSHOTS
          ((snapshots h @ [new_snapshot now rs]) @ map (\<lambda>(now, rs). new_snapshot now rs) cycles)"
    by (rule slice_last_append)
  finally show ?case by (simp add: c)
qed

lemma recordSnapshot_last:
  "last (snapshots (recordSnapshot now h rs)) = new_snapshot now rs"
  by (simp add: recordSnapshot_def Let_def slice_last_def MAX_SNAPSHOTS_def)

lemma recordSnapshot_length:
  "length (snapshots (recordSnapshot now h rs)) \<le> MAX_SNAPSHOTS"
  by (simp add: recordSnapshot_snapshots slice_last_def MAX_SNAPSHOTS_def)

text \<open>
  C3. For a history holding at most \<open>MAX_SNAPSHOTS = 120\<close> snapshots,
  \<open>recordSnapshot\<close> puts the new snapshot at the end; below capacity nothing is
  evicted, at capacity exactly the oldest snapshot is dropped from the front, and the
  stored sequence never holds more than 120 snapshots. Recording 121 cycles into an
  empty history keeps exactly 120 snapshots, namely those of cycles 2 to 121 in order,
  so the earliest retained time is that of the second cycle.
\<close>

theorem recordSnapshot_ring_buffer:
  assumes "length (snapshots h) \<le> MAX_SNAPSHOTS"
  shows "snapshots (recordSnapshot now h rs) =
           (if length (snapshots h) < MAX_SNAPSHOTS
            then snapshots h @ [new_snapshot now rs]
            else tl (snapshots h) @ [new_snapshot now rs])
       \<and> last (snapshots (recordSnapshot now h rs)) = new_snapshot now rs
       \<and> snap_t (new_snapshot now rs) = now
       \<and> length (snapshots (recordSnapshot now h rs)) = min (Suc (length (snapshots h))) MAX_SNAPSHOTS
       \<and> length (snapshots (recordSnapshot now h rs)) \<le> MAX_SNAPSHOTS
       \<and> (length cycles = Suc MAX_SNAPSHOTS \<longrightarrow>
            snapshots (record_cycles \<lparr>snapshots = []\<rparr> cycles) =
              map (\<lambda>(now, rs). new_snapshot now rs) (tl cycles)
          \<and> length (snapshots (record_cycles \<lparr>snapshots = []\<rparr> cycles)) = MAX_SNAPSHOTS
          \<and> snap_t (hd (snapshots (record_cycles \<lparr>snapshots = []\<rparr> cycles))) = fst (cycles ! 1))"
proof -
  have step: "snapshots (recordSnapshot now h rs) =
           (if length (snapshots h) < MAX_SNAPSHOTS
            then snapshots h @ [new_snapshot now rs]
            else tl (snapshots h) @ [new_snapshot now rs])"
  proof (cases "length (snapshots h) < MAX_SNAPSHOTS")
    case True
    then show ?thesis by (simp add: recordSnapshot_def Let_def)
  next
    case False
    with assms have full: "length (snapshots h) = MAX_SNAPSHOTS" by simp
    then have "snapshots h \<noteq> []" by (auto simp: MAX_SNAPSHOTS_def)
    then show ?thesis
      using full by (cases "snapshots h") (simp_all add: recordSnapshot_snapshots slice_last_def)
  qed
  have len: "length (snapshots (recordSnapshot now h rs)) = min (Suc (length (snapshots h))) MAX_SNAPSHOTS"
    using assms by (simp add: recordSnapshot_snapshots slice_last_def MAX_SNAPSHOTS_def)
  have cyc: "snapshots (record_cycles \<lparr>snapshots = []\<rparr> cycles) =
              map (\<lambda>(now, rs). new_snapshot now rs) (tl cycles)
          \<and> length (snapshots (record_cycles \<lparr>snapshots = []\<rparr> cycles)) = MAX_SNAPSHOTS
          \<and> snap_t (hd (snapshots (record_cycles \<lparr>snapshots = []\<rparr> cycles))) = fst (cycles ! 1)"
    if n: "length cycles = Suc MAX_SNAPSHOTS"
  proof -
    obtain c cs where cycles: "cycles = c # cs" and cs: "length cs = MAX_SNAPSHOTS"
      using n by (cases cycles) auto
    obtain c' cs' where cs': "cs = c' # cs'"
      using cs by (cases cs) (auto simp: MAX_SNAPSHOTS_def)
    have "snapshots (record_cycles \<lparr>snapshots = []\<rparr> cycles) =
            slice_last MAX_SNAPSHOTS (map (\<lambda>(now, rs). new_snapshot now rs) cycles)"
      using record_cycles_snapshots [of "\<lparr>snapshots = []\<rparr>" cycles] by simp
    also have "\<dots> = map (\<lambda>(now, rs). new_snapshot now rs) (tl cycles)"
      using cs by (simp add: slice_last_def cycles)
    finally have eq: "snapshots (record_cycles \<lparr>snapshots = []\<rparr> cycles) =
            map (\<lambda>(now, rs). new_snapshot now rs) (tl cycles)" .
    moreover have "length (map (\<lambda>(now, rs). new_snapshot now rs) (tl cycles)) = MAX_SNAPSHOTS"
      using cs by (simp add: cycles)
    moreover have "snap_t (hd (map (\<lambda>(now, rs). new_snapshot now rs) (tl cycles))) = fst (cycles ! 1)"
      by (cases c') (simp add: cycles cs' new_snapshot_def)
    ultimately show ?thesis by simp
  qed
  have t: "snap_t (new_snapshot now rs) = now"
    by (simp add: new_snapshot_def)
  show ?thesis
    using step len cyc t recordSnapshot_last [of now h rs] recordSnapshot_length [of now h rs]
    by blast
qed

theorem recordSnapshot_ring_buffer_witness:
  "length (snapshots \<lparr>snapshots = [\<lparr>snap_t = 1, snap_ep = []\<rparr>]\<rparr>) \<le> MAX_SNAPSHOTS
   \<and> snapshots (recordSnapshot 2 \<lparr>snapshots = [\<lparr>snap_t = 1, snap_ep = []\<rparr>]\<rparr> []) =
        [\<lparr>snap_t = 1, snap_ep = []\<rparr>, \<lparr>snap_t = 2, snap_ep = []\<rparr>]
   \<and> length ((0, []) # replicate 120 (5, [])) = Suc MAX_SNAPSHOTS
   \<and> length (snapshots (record_cycles \<lparr>snapshots = []\<rparr> ((0, []) # replicate 120 (5, [])))) = 120
   \<and> snap_t (hd (snapshots (record_cycles \<lparr>snapshots = []\<rparr> ((0, []) # replicate 120 (5, []))))) = 5"
proof -
  have h: "length (snapshots \<lparr>snapshots = [\<lparr>snap_t = 1, snap_ep = []\<rparr>]\<rparr>) \<le> MAX_SNAPSHOTS"
    by (simp add: MAX_SNAPSHOTS_def)
  have n: "length ((0::int, []::check_result list) # replicate 120 (5, [])) = Suc MAX_SNAPSHOTS"
    by (simp add: MAX_SNAPSHOTS_def)
  show ?thesis
    using recordSnapshot_ring_buffer
      [OF h, of 2 "[]" "(0, []) # replicate 120 (5, [])"] n
    by (simp add: MAX_SNAPSHOTS_def new_snapshot_def)
qed



section \<open>Sparklines\<close>




section \<open>Uptimes\<close>






section \<open>Incidents\<close>












lemma obj_get_Nil: "obj_get [] k = None"
  by (simp add: obj_get_def)









section \<open>The check runner\<close>

lemma result_fields:
  "rid (result ep status ms det err) = ep_id ep"
  "rstatus (result ep status ms det err) = status"
  "rcategory (result ep status ms det err) = ep_category ep"
  "responseTimeMs (result ep status ms det err) = Some ms"
  "rdetails (result ep status ms det err) = det"
  "rerror (result ep status ms det err) = (if truthy err then err else None)"
  by (simp_all add: result_def)

lemma js_lookup_Own: "js_lookup ob k = Own v \<longleftrightarrow> obj_get ob k = Some v"
  by (simp add: js_lookup_def split: option.splits)

lemma js_lookup_Absent: "js_lookup ob k = Absent \<longleftrightarrow> obj_get ob k = None \<and> ordinary k"
  by (simp add: js_lookup_def split: option.splits)



lemma runCheck_caught:
  assumes "js_lookup (CHECK_FNS ps) (ep_checkType ep) = Own fn" and "fn ep = Inl (Err err)"
  shows "runCheck ps ep =
     Inr (Check (result ep
            (if ep_category ep = ''validators'' \<and> isFirewall err then ''DEGRADED'' else ''DOWN'')
            0 no_details
            (Some (if ep_category ep = ''validators'' \<and> isFirewall err
                   then ''Unreachable (likely firewalled)''
                   else error_text err))))"
  using assms by (simp add: runCheck_def catch_block_def Let_def)

text \<open>
  C2, as stated, fails for an error without a message. A connection-refused error
  whose message is empty, thrown by the probe of an endpoint of category \<open>apis\<close>,
  gives DOWN with the error text \<open>Error\<close>, the string form of the error, which is not
  the error's (empty) message.
\<close>

theorem runCheck_firewall_rule_counterexample:
  "isFirewall refused_no_message
   \<and> err_message refused_no_message = []
   \<and> ep_category (sample_endpoint ''passport-api'' ''apis'' ''http-get'') = ''apis''
   \<and> js_lookup (CHECK_FNS (all_throw (Err refused_no_message)))
        (ep_checkType (sample_endpoint ''passport-api'' ''apis'' ''http-get''))
      = Own (fn_http_get (all_throw (Err refused_no_message)))
   \<and> fn_http_get (all_throw (Err refused_no_message))
        (sample_endpoint ''passport-api'' ''apis'' ''http-get'')
      = Inl (Err refused_no_message)
   \<and> runCheck (all_throw (Err refused_no_message))
        (sample_endpoint ''passport-api'' ''apis'' ''http-get'')
      = Inr (Check (result (sample_endpoint ''passport-api'' ''apis'' ''http-get'')
                      ''DOWN'' 0 no_details (Some ''Error'')))
   \<and> rerror (result (sample_endpoint ''passport-api'' ''apis'' ''http-get'')
               ''DOWN'' 0 no_details (Some ''Error'')) = Some ''Error''
   \<and> Some ''Error'' \<noteq> Some (err_message refused_no_message)"
proof -
  let ?ps = "all_throw (Err refused_no_message)"
  let ?a = "sample_endpoint ''passport-api'' ''apis'' ''http-get''"
  have fw: "isFirewall refused_no_message"
    by (simp add: isFirewall_def refused_no_message_def)
  have m: "err_message refused_no_message = []"
    by (simp add: refused_no_message_def)
  have c: "ep_category ?a = ''apis''"
    by (simp add: sample_endpoint_def)
  have l: "js_lookup (CHECK_FNS ?ps) (ep_checkType ?a) = Own (fn_http_get ?ps)"
    by (simp add: js_lookup_def CHECK_FNS_def obj_get_def sample_endpoint_def)
  have f: "fn_http_get ?ps ?a = Inl (Err refused_no_message)"
    by (simp add: all_throw_def)
  have r: "runCheck ?ps ?a = Inr (Check (result ?a ''DOWN'' 0 no_details (Some ''Error'')))"
    unfolding runCheck_caught [OF l f]
    by (simp add: c error_text_def refused_no_message_def)
  have e: "rerror (result ?a ''DOWN'' 0 no_details (Some ''Error'')) = Some ''Error''"
    by (simp add: result_fields truthy_def)
  show ?thesis
    using fw m c l f r e by simp
qed

text \<open>
  C2, amended. When the registered probe of an endpoint throws an error whose code is
  ECONNREFUSED, ECONNRESET or EHOSTUNREACH: for category \<open>validators\<close> the result of
  \<open>runCheck\<close> is DEGRADED with the error text \<open>Unreachable (likely firewalled)\<close>; for
  any other category it is DOWN with the error's message (\<^verbatim>\<open>err.message\<close>) when that
  is not empty, else with the string form of the error (\<^verbatim>\<open>String(err)\<close>), and with
  no error text when both are empty.
\<close>

theorem runCheck_firewall_rule:
  assumes "js_lookup (CHECK_FNS ps) (ep_checkType ep) = Own fn"
    and "fn ep = Inl (Err err)"
    and "isFirewall err"
  shows "(ep_category ep = ''validators'' \<longrightarrow>
            (\<exists>r. runCheck ps ep = Inr (Check r) \<and> rstatus r = ''DEGRADED''
               \<and> rerror r = Some ''Unreachable (likely firewalled)''))
       \<and> (ep_category ep \<noteq> ''validators'' \<longrightarrow>
            (\<exists>r. runCheck ps ep = Inr (Check r) \<and> rstatus r = ''DOWN''
               \<and> rerror r =
                   (if err_message err \<noteq> [] then Some (err_message err)
                    else if err_string err \<noteq> [] then Some (err_string err)
                    else None)))"
  using assms(3) runCheck_caught [OF assms(1,2)]
  by (simp add: result_fields truthy_def error_text_def)

theorem runCheck_firewall_rule_witness:
  "js_lookup (CHECK_FNS all_refused)
      (ep_checkType (sample_endpoint ''validator-1'' ''validators'' ''cosmos-rpc''))
      = Own (fn_cosmos_rpc all_refused)
   \<and> fn_cosmos_rpc all_refused (sample_endpoint ''validator-1'' ''validators'' ''cosmos-rpc'')
      = Inl (Err refused)
   \<and> isFirewall refused
   \<and> (\<exists>r. runCheck all_refused (sample_endpoint ''validator-1'' ''validators'' ''cosmos-rpc'')
            = Inr (Check r)
          \<and> rstatus r = ''DEGRADED'' \<and> rerror r = Some ''Unreachable (likely firewalled)'')
   \<and> js_lookup (CHECK_FNS all_refused)
      (ep_checkType (sample_endpoint ''passport-api'' ''apis'' ''http-get''))
      = Own (fn_http_get all_refused)
   \<and> (\<exists>r. runCheck all_refused (sample_endpoint ''passport-api'' ''apis'' ''http-get'')
            = Inr (Check r)
          \<and> rstatus r = ''DOWN'' \<and> rerror r = Some ''connect ECONNREFUSED 10.0.0.1:26657'')
   \<and> (\<exists>r. runCheck (all_throw (Err refused_no_message))
              (sample_endpoint ''passport-api'' ''apis'' ''http-get'') = Inr (Check r)
          \<and> rstatus r = ''DOWN'' \<and> rerror r = Some ''Error'')"
proof -
  let ?v = "sample_endpoint ''validator-1'' ''validators'' ''cosmos-rpc''"
  let ?a = "sample_endpoint ''passport-api'' ''apis'' ''http-get''"
  let ?ps = "all_throw (Err refused_no_message)"
  have v1: "js_lookup (CHECK_FNS all_refused) (ep_checkType ?v) = Own (fn_cosmos_rpc all_refused)"
    by (simp add: js_lookup_def CHECK_FNS_def obj_get_def sample_endpoint_def)
  have v2: "fn_cosmos_rpc all_refused ?v = Inl (Err refused)"
    by (simp add: all_refused_def)
  have a1: "js_lookup (CHECK_FNS all_refused) (ep_checkType ?a) = Own (fn_http_get all_refused)"
    by (simp add: js_lookup_def CHECK_FNS_def obj_get_def sample_endpoint_def)
  have a2: "fn_http_get all_refused ?a = Inl (Err refused)"
    by (simp add: all_refused_def)
  have n1: "js_lookup (CHECK_FNS ?ps) (ep_checkType ?a) = Own (fn_http_get ?ps)"
    by (simp add: js_lookup_def CHECK_FNS_def obj_get_def sample_endpoint_def)
  have n2: "fn_http_get ?ps ?a = Inl (Err refused_no_message)"
    by (simp add: all_throw_def)
  have fw: "isFirewall refused" and fwn: "isFirewall refused_no_message"
    by (simp_all add: isFirewall_def refused_def refused_no_message_def)
  have cv: "ep_category ?v = ''validators''" and ca: "ep_category ?a \<noteq> ''validators''"
    and m: "err_message refused = ''connect ECONNREFUSED 10.0.0.1:26657''"
    and mn: "err_message refused_no_message = []" "err_string refused_no_message = ''Error''"
    by (simp_all add: sample_endpoint_def refused_def refused_no_message_def)
  show ?thesis
    using runCheck_firewall_rule [OF v1 v2 fw] runCheck_firewall_rule [OF a1 a2 fw]
      runCheck_firewall_rule [OF n1 n2 fwn] v1 v2 a1 fw cv ca m mn
    by simp
qed








section \<open>Block age of the Cosmos probes\<close>

lemma checkCosmosRpc_reachable:
  assumes "rpc_status inp = Inr \<lparr>statusCode = 200, parsed = Inr (Some si)\<rparr>"
    and "si_block_time_ms si = Num tb"
  shows "\<exists>r. checkCosmosRpc inp ep = Inr r
       \<and> blockAgeSec (rdetails r) = Some (Num (round (real_of_int (rpc_now inp - tb) / 1000)))
       \<and> (real_of_int (rpc_now inp - tb) / 1000 > real_of_int CHAIN_HALT_THRESHOLD_SECONDS \<longrightarrow>
            rstatus r = ''DEGRADED''
          \<and> rerror r = Some (''Possible chain halt '' @ [CHR 0xE2, CHR 0x80, CHR 0x94]
                 @ '' last block '' @ decimal (round (real_of_int (rpc_now inp - tb) / 1000))
                 @ ''s ago''))
       \<and> (real_of_int (rpc_now inp - tb) / 1000 \<le> real_of_int CHAIN_HALT_THRESHOLD_SECONDS \<longrightarrow>
            rstatus r = (if si_catching_up si then ''DEGRADED'' else ''UP''))"
  using assms
  by (simp add: checkCosmosRpc_def Let_def block_age_def Math_round_def
      exceeds_halt_threshold_def halt_message_def show_jsnum_def result_fields truthy_def
      no_details_def split: sum.splits)

lemma checkCosmosRest_reachable:
  assumes "rest_block inp = Inr \<lparr>statusCode = 200, parsed = Inr (Some bh)\<rparr>"
    and "bh_time_ms bh = Num tb"
  shows "\<exists>r. checkCosmosRest inp ep = Inr r
       \<and> blockAgeSec (rdetails r) = Some (Num (round (real_of_int (rest_now inp - tb) / 1000)))
       \<and> (real_of_int (rest_now inp - tb) / 1000 > real_of_int CHAIN_HALT_THRESHOLD_SECONDS \<longrightarrow>
            rstatus r = ''DEGRADED''
          \<and> rerror r = Some (''Possible chain halt '' @ [CHR 0xE2, CHR 0x80, CHR 0x94]
                 @ '' last block '' @ decimal (round (real_of_int (rest_now inp - tb) / 1000))
                 @ ''s ago''))
       \<and> (real_of_int (rest_now inp - tb) / 1000 \<le> real_of_int CHAIN_HALT_THRESHOLD_SECONDS \<longrightarrow>
            rstatus r = ''UP'')"
  using assms
  by (simp add: checkCosmosRest_def Let_def block_age_def Math_round_def
      exceeds_halt_threshold_def halt_message_def show_jsnum_def result_fields truthy_def
      no_details_def split: sum.splits)

lemma round_millis: "round (real_of_int d / 1000) = (d + 500) div 1000"
proof -
  have "real_of_int d / 1000 + 1 / 2 = real_of_int (d + 500) / real_of_int 1000"
    by simp
  then have "round (real_of_int d / 1000) = \<lfloor>real_of_int (d + 500) / real_of_int 1000\<rfloor>"
    unfolding round_def by (simp only:)
  also have "\<dots> = (d + 500) div 1000"
    by (simp only: floor_divide_of_int_eq)
  finally show ?thesis .
qed

lemma round_exceeds: "60 < round (x::real) \<Longrightarrow> 60 < x"
proof -
  assume "60 < round x"
  then have "(61::real) \<le> of_int (round x)"
    by linarith
  moreover have "of_int (round x) \<le> x + 1 / 2"
    by (rule of_int_round_le)
  ultimately show ?thesis by linarith
qed

text \<open>
  C9. For \<open>checkCosmosRpc\<close> and \<open>checkCosmosRest\<close>, when the endpoint answers with
  status 200 and a block time that parses: the probe returns a result whose
  \<open>blockAgeSec\<close> is \<open>(now - block time) / 1000\<close> rounded to the nearest second; the
  age is compared with the halt threshold, which is 60 seconds; and whenever the age
  exceeds the threshold the result is DEGRADED with the chain-halt message (the
  comparison is on the age before rounding, so it also holds whenever the rounded age
  exceeds the threshold). A block that is 120 seconds old gives DEGRADED with
  \<open>blockAgeSec = 120\<close>.
\<close>

theorem cosmos_block_age_halt:
  "CHAIN_HALT_THRESHOLD_SECONDS = 60
   \<and> (rpc_status inp = Inr \<lparr>statusCode = 200, parsed = Inr (Some si)\<rparr>
        \<and> si_block_time_ms si = Num tb \<longrightarrow>
      (\<exists>r. checkCosmosRpc inp ep = Inr r
         \<and> blockAgeSec (rdetails r) = Some (Num (round (real_of_int (rpc_now inp - tb) / 1000)))
         \<and> (real_of_int (rpc_now inp - tb) / 1000 > 60 \<longrightarrow>
              rstatus r = ''DEGRADED''
            \<and> rerror r = Some (''Possible chain halt '' @ [CHR 0xE2, CHR 0x80, CHR 0x94]
                   @ '' last block '' @ decimal (round (real_of_int (rpc_now inp - tb) / 1000))
                   @ ''s ago''))
         \<and> (round (real_of_int (rpc_now inp - tb) / 1000) > 60 \<longrightarrow> rstatus r = ''DEGRADED'')
         \<and> (real_of_int (rpc_now inp - tb) / 1000 \<le> 60 \<longrightarrow>
              rstatus r = (if si_catching_up si then ''DEGRADED'' else ''UP''))
         \<and> (rpc_now inp - tb = 120000 \<longrightarrow>
              rstatus r = ''DEGRADED'' \<and> blockAgeSec (rdetails r) = Some (Num 120))))
   \<and> (rest_block rin = Inr \<lparr>statusCode = 200, parsed = Inr (Some bh)\<rparr>
        \<and> bh_time_ms bh = Num tr \<longrightarrow>
      (\<exists>r. checkCosmosRest rin ep = Inr r
         \<and> blockAgeSec (rdetails r) = Some (Num (round (real_of_int (rest_now rin - tr) / 1000)))
         \<and> (real_of_int (rest_now rin - tr) / 1000 > 60 \<longrightarrow>
              rstatus r = ''DEGRADED''
            \<and> rerror r = Some (''Possible chain halt '' @ [CHR 0xE2, CHR 0x80, CHR 0x94]
                   @ '' last block '' @ decimal (round (real_of_int (rest_now rin - tr) / 1000))
                   @ ''s ago''))
         \<and> (round (real_of_int (rest_now rin - tr) / 1000) > 60 \<longrightarrow> rstatus r = ''DEGRADED'')
         \<and> (real_of_int (rest_now rin - tr) / 1000 \<le> 60 \<longrightarrow> rstatus r = ''UP'')
         \<and> (rest_now rin - tr = 120000 \<longrightarrow>
              rstatus r = ''DEGRADED'' \<and> blockAgeSec (rdetails r) = Some (Num 120))))"
proof -
  have thr: "CHAIN_HALT_THRESHOLD_SECONDS = 60"
    by (simp add: CHAIN_HALT_THRESHOLD_SECONDS_def)
  have rpc: "\<exists>r. checkCosmosRpc inp ep = Inr r
         \<and> blockAgeSec (rdetails r) = Some (Num (round (real_of_int (rpc_now inp - tb) / 1000)))
         \<and> (real_of_int (rpc_now inp - tb) / 1000 > 60 \<longrightarrow>
              rstatus r = ''DEGRADED''
            \<and> rerror r = Some (''Possible chain halt '' @ [CHR 0xE2, CHR 0x80, CHR 0x94]
                   @ '' last block '' @ decimal (round (real_of_int (rpc_now inp - tb) / 1000))
                   @ ''s ago''))
         \<and> (round (real_of_int (rpc_now inp - tb) / 1000) > 60 \<longrightarrow> rstatus r = ''DEGRADED'')
         \<and> (real_of_int (rpc_now inp - tb) / 1000 \<le> 60 \<longrightarrow>
              rstatus r = (if si_catching_up si then ''DEGRADED'' else ''UP''))
         \<and> (rpc_now inp - tb = 120000 \<longrightarrow>
              rstatus r = ''DEGRADED'' \<and> blockAgeSec (rdetails r) = Some (Num 120))"
    if a: "rpc_status inp = Inr \<lparr>statusCode = 200, parsed = Inr (Some si)\<rparr>"
      and b: "si_block_time_ms si = Num tb"
  proof -
    from checkCosmosRpc_reachable [OF a b, of ep] obtain r where
      r: "checkCosmosRpc inp ep = Inr r"
        "blockAgeSec (rdetails r) = Some (Num (round (real_of_int (rpc_now inp - tb) / 1000)))"
        "real_of_int (rpc_now inp - tb) / 1000 > real_of_int CHAIN_HALT_THRESHOLD_SECONDS \<longrightarrow>
            rstatus r = ''DEGRADED''
          \<and> rerror r = Some (''Possible chain halt '' @ [CHR 0xE2, CHR 0x80, CHR 0x94]
                 @ '' last block '' @ decimal (round (real_of_int (rpc_now inp - tb) / 1000))
                 @ ''s ago'')"
        "real_of_int (rpc_now inp - tb) / 1000 \<le> real_of_int CHAIN_HALT_THRESHOLD_SECONDS \<longrightarrow>
            rstatus r = (if si_catching_up si then ''DEGRADED'' else ''UP'')"
      by blast
    have ex: "rstatus r = ''DEGRADED'' \<and> blockAgeSec (rdetails r) = Some (Num 120)"
      if "rpc_now inp - tb = 120000"
      using r(2,3) that by (simp add: thr round_millis)
    have rnd: "rstatus r = ''DEGRADED''"
      if "round (real_of_int (rpc_now inp - tb) / 1000) > 60"
      using r(3) round_exceeds [OF that] by (simp add: thr)
    show ?thesis
      using r ex rnd by (auto simp: thr)
  qed
  have rest: "\<exists>r. checkCosmosRest rin ep = Inr r
         \<and> blockAgeSec (rdetails r) = Some (Num (round (real_of_int (rest_now rin - tr) / 1000)))
         \<and> (real_of_int (rest_now rin - tr) / 1000 > 60 \<longrightarrow>
              rstatus r = ''DEGRADED''
            \<and> rerror r = Some (''Possible chain halt '' @ [CHR 0xE2, CHR 0x80, CHR 0x94]
                   @ '' last block '' @ decimal (round (real_of_int (rest_now rin - tr) / 1000))
                   @ ''s ago''))
         \<and> (round (real_of_int (rest_now rin - tr) / 1000) > 60 \<longrightarrow> rstatus r = ''DEGRADED'')
         \<and> (real_of_int (rest_now rin - tr) / 1000 \<le> 60 \<longrightarrow> rstatus r = ''UP'')
         \<and> (rest_now rin - tr = 120000 \<longrightarrow>
              rstatus r = ''DEGRADED'' \<and> blockAgeSec (rdetails r) = Some (Num 120))"
    if a: "rest_block rin = Inr \<lparr>statusCode = 200, parsed = Inr (Some bh)\<rparr>"
      and b: "bh_time_ms bh = Num tr"
  proof -
    from checkCosmosRest_reachable [OF a b, of ep] obtain r where
      r: "checkCosmosRest rin ep = Inr r"
        "blockAgeSec (rdetails r) = Some (Num (round (real_of_int (rest_now rin - tr) / 1000)))"
        "real_of_int (rest_now rin - tr) / 1000 > real_of_int CHAIN_HALT_THRESHOLD_SECONDS \<longrightarrow>
            rstatus r = ''DEGRADED''
          \<and> rerror r = Some (''Possible chain halt '' @ [CHR 0xE2, CHR 0x80, CHR 0x94]
                 @ '' last block '' @ decimal (round (real_of_int (rest_now rin - tr) / 1000))
                 @ ''s ago'')"
        "real_of_int (rest_now rin - tr) / 1000 \<le> real_of_int CHAIN_HALT_THRESHOLD_SECONDS \<longrightarrow>
            rstatus r = ''UP''"
      by blast
    have ex: "rstatus r = ''DEGRADED'' \<and> blockAgeSec (rdetails r) = Some (Num 120)"
      if "rest_now rin - tr = 120000"
      using r(2,3) that by (simp add: thr round_millis)
    have rnd: "rstatus r = ''DEGRADED''"
      if "round (real_of_int (rest_now rin - tr) / 1000) > 60"
      using r(3) round_exceeds [OF that] by (simp add: thr)
    show ?thesis
      using r ex rnd by (auto simp: thr)
  qed
  show ?thesis
    using thr rpc rest by blast
qed

theorem cosmos_block_age_halt_witness:
  "(\<exists>r. checkCosmosRpc stale_rpc (sample_endpoint ''mainnet-cosmos-rpc'' ''blockchain'' ''cosmos-rpc'') = Inr r
       \<and> rstatus r = ''DEGRADED'' \<and> blockAgeSec (rdetails r) = Some (Num 120)
       \<and> rerror r = Some (''Possible chain halt '' @ [CHR 0xE2, CHR 0x80, CHR 0x94]
                           @ '' last block 120s ago''))
   \<and> (\<exists>r. checkCosmosRest stale_rest (sample_endpoint ''mainnet-cosmos-rpc'' ''blockchain'' ''cosmos-rpc'') = Inr r
       \<and> rstatus r = ''DEGRADED'' \<and> blockAgeSec (rdetails r) = Some (Num 120)
       \<and> rerror r = Some (''Possible chain halt '' @ [CHR 0xE2, CHR 0x80, CHR 0x94]
                           @ '' last block 120s ago''))"
proof -
  let ?si = "\<lparr>si_block_height = Num 4242, si_block_time = ''2023-11-14T22:13:20Z'',
              si_block_time_ms = Num 1700000000000, si_catching_up = False\<rparr>"
  let ?bh = "\<lparr>bh_height = Num 4242, bh_time = ''2023-11-14T22:13:20Z'',
              bh_time_ms = Num 1700000000000, bh_chain_id = Some ''integra-1''\<rparr>"
  have a: "rpc_status stale_rpc = Inr \<lparr>statusCode = 200, parsed = Inr (Some ?si)\<rparr>"
    and b: "si_block_time_ms ?si = Num 1700000000000"
    and c: "rest_block stale_rest = Inr \<lparr>statusCode = 200, parsed = Inr (Some ?bh)\<rparr>"
    and d: "bh_time_ms ?bh = Num 1700000000000"
    and n: "rpc_now stale_rpc = 1700000120000" "rest_now stale_rest = 1700000120000"
    by (simp_all add: stale_rpc_def stale_rest_def)
  have dec: "decimal 120 = ''120''"
    by (simp add: decimal_def digits.simps digit_char_def)
  let ?ep = "sample_endpoint ''mainnet-cosmos-rpc'' ''blockchain'' ''cosmos-rpc''"
  note T = cosmos_block_age_halt [of stale_rpc ?si 1700000000000 ?ep stale_rest ?bh 1700000000000]
  from T a b obtain r where r: "checkCosmosRpc stale_rpc ?ep = Inr r"
      "blockAgeSec (rdetails r) = Some (Num (round (real_of_int (rpc_now stale_rpc - 1700000000000) / 1000)))"
      "real_of_int (rpc_now stale_rpc - 1700000000000) / 1000 > 60 \<longrightarrow>
              rstatus r = ''DEGRADED''
            \<and> rerror r = Some (''Possible chain halt '' @ [CHR 0xE2, CHR 0x80, CHR 0x94]
                   @ '' last block '' @ decimal (round (real_of_int (rpc_now stale_rpc - 1700000000000) / 1000))
                   @ ''s ago'')"
    by blast
  from T c d obtain q where q: "checkCosmosRest stale_rest ?ep = Inr q"
      "blockAgeSec (rdetails q) = Some (Num (round (real_of_int (rest_now stale_rest - 1700000000000) / 1000)))"
      "real_of_int (rest_now stale_rest - 1700000000000) / 1000 > 60 \<longrightarrow>
              rstatus q = ''DEGRADED''
            \<and> rerror q = Some (''Possible chain halt '' @ [CHR 0xE2, CHR 0x80, CHR 0x94]
                   @ '' last block '' @ decimal (round (real_of_int (rest_now stale_rest - 1700000000000) / 1000))
                   @ ''s ago'')"
    by blast
  have "rstatus r = ''DEGRADED'' \<and> blockAgeSec (rdetails r) = Some (Num 120)
       \<and> rerror r = Some (''Possible chain halt '' @ [CHR 0xE2, CHR 0x80, CHR 0x94]
                           @ '' last block 120s ago'')"
    using r(2,3) by (simp add: n dec round_millis)
  moreover have "rstatus q = ''DEGRADED'' \<and> blockAgeSec (rdetails q) = Some (Num 120)
       \<and> rerror q = Some (''Possible chain halt '' @ [CHR 0xE2, CHR 0x80, CHR 0x94]
                           @ '' last block 120s ago'')"
    using q(2,3) by (simp add: n dec round_millis)
  ultimately show ?thesis
    using r(1) q(1) by blast
qed

section \<open>Dependency graph\<close>

lemma obj_get_ensure_node:
  "obj_get (ensure_node g k) k' =
     (if k' = k \<and> obj_get g k = None \<and> ordinary k then Some empty_node else obj_get g k')"
  by (simp add: ensure_node_def js_lookup_def obj_get_obj_set split: option.splits)


lemma reqs_of_ensure_node: "reqs_of (ensure_node g k) k' = reqs_of g k'"
  by (simp add: reqs_of_def obj_get_ensure_node empty_node_def)

lemma has_ensure_node:
  "has_node (ensure_node g k) k' \<longleftrightarrow> (k' = k \<and> ordinary k) \<or> has_node g k'"
  by (auto simp: has_node_def obj_get_ensure_node)

lemma push_dependsOn_Some: "push_dependsOn g k v = Some g' \<Longrightarrow> has_node g k"
  by (simp add: push_dependsOn_def has_node_def js_lookup_def split: option.splits if_splits)

lemma push_requiredBy_Some: "push_requiredBy g k v = Some g' \<Longrightarrow> has_node g k"
  by (simp add: push_requiredBy_def has_node_def js_lookup_def split: option.splits if_splits)

lemma add_dependsOn_Some: "add_dependsOn g k v = Some g' \<Longrightarrow> has_node g k"
  by (simp add: add_dependsOn_def has_node_def js_lookup_def split: option.splits if_splits)

lemma add_requiredBy_Some: "add_requiredBy g k v = Some g' \<Longrightarrow> has_node g k"
  by (simp add: add_requiredBy_def has_node_def js_lookup_def split: option.splits if_splits)

lemma push_dependsOn_effect:
  assumes "has_node g k"
  shows "\<exists>g'. push_dependsOn g k v = Some g'
     \<and> (\<forall>a. deps_of g' a = (if a = k then deps_of g a @ [v] else deps_of g a))
     \<and> (\<forall>a. reqs_of g' a = reqs_of g a)
     \<and> (\<forall>a. has_node g' a \<longleftrightarrow> has_node g a)"
  using assms
  by (auto simp: has_node_def push_dependsOn_def js_lookup_def deps_of_def reqs_of_def
      obj_get_obj_set)

lemma push_requiredBy_effect:
  assumes "has_node g k"
  shows "\<exists>g'. push_requiredBy g k v = Some g'
     \<and> (\<forall>a. deps_of g' a = deps_of g a)
     \<and> (\<forall>a. reqs_of g' a = (if a = k then reqs_of g a @ [v] else reqs_of g a))
     \<and> (\<forall>a. has_node g' a \<longleftrightarrow> has_node g a)"
  using assms
  by (auto simp: has_node_def push_requiredBy_def js_lookup_def deps_of_def reqs_of_def
      obj_get_obj_set)

lemma add_dependsOn_effect:
  assumes "has_node g k"
  shows "\<exists>g'. add_dependsOn g k v = Some g'
     \<and> (\<forall>a. deps_of g' a =
            (if a = k \<and> v \<notin> set (deps_of g k) then deps_of g a @ [v] else deps_of g a))
     \<and> (\<forall>a. reqs_of g' a = reqs_of g a)
     \<and> (\<forall>a. has_node g' a \<longleftrightarrow> has_node g a)"
proof (cases "v \<in> set (deps_of g k)")
  case True
  then show ?thesis
    using assms by (auto simp: has_node_def add_dependsOn_def js_lookup_def deps_of_def)
next
  case False
  then have "add_dependsOn g k v = push_dependsOn g k v"
    using assms by (auto simp: has_node_def add_dependsOn_def js_lookup_def deps_of_def)
  then show ?thesis
    using push_dependsOn_effect [OF assms, of v] False by auto
qed

lemma add_requiredBy_effect:
  assumes "has_node g k"
  shows "\<exists>g'. add_requiredBy g k v = Some g'
     \<and> (\<forall>a. deps_of g' a = deps_of g a)
     \<and> (\<forall>a. reqs_of g' a =
            (if a = k \<and> v \<notin> set (reqs_of g k) then reqs_of g a @ [v] else reqs_of g a))
     \<and> (\<forall>a. has_node g' a \<longleftrightarrow> has_node g a)"
proof (cases "v \<in> set (reqs_of g k)")
  case True
  then show ?thesis
    using assms by (auto simp: has_node_def add_requiredBy_def js_lookup_def reqs_of_def)
next
  case False
  then have "add_requiredBy g k v = push_requiredBy g k v"
    using assms by (auto simp: has_node_def add_requiredBy_def js_lookup_def reqs_of_def)
  then show ?thesis
    using push_requiredBy_effect [OF assms, of v] False by auto
qed















text \<open>
  What a successful build guarantees for every registry: the node keys and the
  \<^verbatim>\<open>requiredBy\<close> entries of the graph are ordinary names. A key is only created
  where the lookup finds nothing; an id is pushed to a \<^verbatim>\<open>requiredBy\<close> list after a
  \<^verbatim>\<open>push\<close> on its own node, or before an \<^verbatim>\<open>indexOf\<close> on its own node, succeeded.
\<close>

lemma ordinary_graph_ensure_node:
  "ordinary_graph g \<Longrightarrow> ordinary_graph (ensure_node g k)"
  by (auto simp: ordinary_graph_def has_ensure_node reqs_of_ensure_node)

lemma ordinary_graph_deps_loop:
  "deps_loop g i ds = Some g' \<Longrightarrow> ordinary_graph g \<Longrightarrow> ordinary_graph g'"
proof (induction ds arbitrary: g)
  case Nil
  then show ?case by simp
next
  case (Cons d ds)
  from Cons.prems(1) obtain g1 g2 where
    s: "push_dependsOn g i d = Some g1" "push_requiredBy (ensure_node g1 d) d i = Some g2"
      "deps_loop g2 i ds = Some g'"
    by (auto split: option.splits)
  have hi: "has_node g i"
    using s(1) by (rule push_dependsOn_Some)
  then have oi: "ordinary i"
    using Cons.prems(2) by (simp add: ordinary_graph_def)
  from push_dependsOn_effect [OF hi, of d] s(1) have
    g1: "\<forall>a. reqs_of g1 a = reqs_of g a" "\<forall>a. has_node g1 a \<longleftrightarrow> has_node g a"
    by auto
  have "ordinary_graph g1"
    using Cons.prems(2) g1 by (simp add: ordinary_graph_def)
  then have e: "ordinary_graph (ensure_node g1 d)"
    by (rule ordinary_graph_ensure_node)
  have hd: "has_node (ensure_node g1 d) d"
    using s(2) by (rule push_requiredBy_Some)
  from push_requiredBy_effect [OF hd, of i] s(2) have
    g2: "\<forall>a. reqs_of g2 a =
           (if a = d then reqs_of (ensure_node g1 d) a @ [i] else reqs_of (ensure_node g1 d) a)"
      "\<forall>a. has_node g2 a \<longleftrightarrow> has_node (ensure_node g1 d) a"
    by auto
  have "ordinary_graph g2"
    using e g2 oi by (auto simp: ordinary_graph_def)
  with s(3) show ?case
    by (rule Cons.IH)
qed

lemma ordinary_graph_dependsOn_edges:
  "dependsOn_edges g eps = Some g' \<Longrightarrow> ordinary_graph g \<Longrightarrow> ordinary_graph g'"
proof (induction eps arbitrary: g)
  case Nil
  then show ?case by simp
next
  case (Cons e eps)
  from Cons.prems(1) obtain g1 where
    s: "deps_loop g (ep_id e) (or_empty (ep_dependsOn e)) = Some g1"
      "dependsOn_edges g1 eps = Some g'"
    by (auto split: option.splits)
  have "ordinary_graph g1"
    using s(1) Cons.prems(2) by (rule ordinary_graph_deps_loop)
  with s(2) show ?case
    by (rule Cons.IH)
qed

lemma ordinary_graph_imps_loop:
  "imps_loop g x ys = Some g' \<Longrightarrow> ordinary_graph g \<Longrightarrow> ordinary_graph g'"
proof (induction ys arbitrary: g)
  case Nil
  then show ?case by simp
next
  case (Cons y ys)
  from Cons.prems(1) obtain g1 g2 where
    s: "add_requiredBy (ensure_node g x) x y = Some g1"
      "add_dependsOn (ensure_node g1 y) y x = Some g2"
      "imps_loop g2 x ys = Some g'"
    by (auto split: option.splits)
  have e: "ordinary_graph (ensure_node g x)"
    using Cons.prems(2) by (rule ordinary_graph_ensure_node)
  have hx: "has_node (ensure_node g x) x"
    using s(1) by (rule add_requiredBy_Some)
  from add_requiredBy_effect [OF hx, of y] s(1) have
    g1: "\<forall>a. reqs_of g1 a =
           (if a = x \<and> y \<notin> set (reqs_of (ensure_node g x) x)
            then reqs_of (ensure_node g x) a @ [y] else reqs_of (ensure_node g x) a)"
      "\<forall>a. has_node g1 a \<longleftrightarrow> has_node (ensure_node g x) a"
    by auto
  have hy: "has_node (ensure_node g1 y) y"
    using s(2) by (rule add_dependsOn_Some)
  have oy: "ordinary y"
  proof (cases "has_node g1 y")
    case True
    then have "has_node (ensure_node g x) y"
      using g1(2) by simp
    then show ?thesis
      using e by (simp add: ordinary_graph_def)
  next
    case False
    then show ?thesis
      using hy by (simp add: has_ensure_node)
  qed
  have o1: "ordinary_graph g1"
    unfolding ordinary_graph_def
  proof (intro allI conjI impI ballI)
    fix k
    assume "has_node g1 k"
    then show "ordinary k"
      using g1(2) e by (simp add: ordinary_graph_def)
  next
    fix k d
    assume "d \<in> set (reqs_of g1 k)"
    then have "d = y \<or> d \<in> set (reqs_of (ensure_node g x) k)"
      using g1(1) [rule_format, of k] by (auto split: if_splits)
    then show "ordinary d"
      using oy e by (auto simp: ordinary_graph_def)
  qed
  then have e1: "ordinary_graph (ensure_node g1 y)"
    by (rule ordinary_graph_ensure_node)
  from add_dependsOn_effect [OF hy, of x] s(2) have
    g2: "\<forall>a. reqs_of g2 a = reqs_of (ensure_node g1 y) a"
      "\<forall>a. has_node g2 a \<longleftrightarrow> has_node (ensure_node g1 y) a"
    by auto
  have "ordinary_graph g2"
    using e1 g2 by (simp add: ordinary_graph_def)
  with s(3) show ?case
    by (rule Cons.IH)
qed

lemma ordinary_graph_impacts_edges:
  "impacts_edges g eps = Some g' \<Longrightarrow> ordinary_graph g \<Longrightarrow> ordinary_graph g'"
proof (induction eps arbitrary: g)
  case Nil
  then show ?case by simp
next
  case (Cons e eps)
  from Cons.prems(1) obtain g1 where
    s: "imps_loop g (ep_id e) (or_empty (ep_impacts e)) = Some g1"
      "impacts_edges g1 eps = Some g'"
    by (auto split: option.splits)
  have "ordinary_graph g1"
    using s(1) Cons.prems(2) by (rule ordinary_graph_imps_loop)
  with s(2) show ?case
    by (rule Cons.IH)
qed

lemma ordinary_graph_init_nodes: "ordinary_graph g \<Longrightarrow> ordinary_graph (init_nodes g eps)"
  by (induction eps arbitrary: g) (simp_all add: ordinary_graph_ensure_node)

lemma ordinary_graph_getDependencyGraph:
  assumes "getDependencyGraph eps = Some g"
  shows "ordinary_graph g"
proof -
  from assms obtain g1 where
    s: "dependsOn_edges (init_nodes [] eps) eps = Some g1" "impacts_edges g1 eps = Some g"
    by (auto simp: getDependencyGraph_def split: option.splits)
  have "ordinary_graph []"
    by (simp add: ordinary_graph_def has_node_def reqs_of_def obj_get_Nil)
  then have "ordinary_graph (init_nodes [] eps)"
    by (rule ordinary_graph_init_nodes)
  with s(1) have "ordinary_graph g1"
    by (rule ordinary_graph_dependsOn_edges)
  with s(2) show ?thesis
    by (rule ordinary_graph_impacts_edges)
qed


section \<open>Blast radius\<close>

lemma visit_dependents_eq:
  "visit_dependents deps (visited, queue, n) =
     (visited \<union> set deps, queue @ fresh_dependents visited deps,
      n + length (fresh_dependents visited deps))"
  by (induction deps arbitrary: visited queue n) auto

lemma list_dependents_eq:
  "list_dependents deps (visited, queue, listed) =
     (visited \<union> set deps, queue @ fresh_dependents visited deps,
      listed @ fresh_dependents visited deps)"
  by (induction deps arbitrary: visited queue listed) auto

lemma collect_dependents_filter:
  "collect_dependents deps (visited, queue, impacted) =
     list_dependents (filter ordinary deps) (visited, queue, impacted)"
  by (induction deps arbitrary: visited queue impacted) (simp_all add: visited_has_def)

lemma collect_dependents_ordinary:
  "\<forall>d \<in> set deps. ordinary d \<Longrightarrow>
     collect_dependents deps (visited, queue, impacted) =
       list_dependents deps (visited, queue, impacted)"
  by (simp add: collect_dependents_filter filter_id_conv)

lemma set_fresh_dependents: "set (fresh_dependents visited deps) = set deps - visited"
  by (induction deps arbitrary: visited) auto

lemma distinct_fresh_dependents: "distinct (fresh_dependents visited deps)"
  by (induction deps arbitrary: visited) (auto simp: set_fresh_dependents)

lemma fresh_dependents_Nil: "set deps \<subseteq> visited \<Longrightarrow> fresh_dependents visited deps = []"
  by (induction deps arbitrary: visited) auto

lemma finite_dependents_in: "finite (dependents_in graph)"
  by (simp add: dependents_in_def)

lemma requiredBy_dependents_in:
  "obj_get graph k = Some node \<Longrightarrow> set (requiredBy node) \<subseteq> dependents_in graph"
  by (auto simp: obj_get_def dependents_in_def dest!: map_of_SomeD)

lemma traversal_decreases:
  assumes "set deps \<subseteq> dependents_in graph"
  shows "((card (dependents_in graph - (visited \<union> set deps)),
           length (queue @ fresh_dependents visited deps)),
          (card (dependents_in graph - visited), Suc (length queue)))
         \<in> less_than <*lex*> less_than"
proof (cases "set deps \<subseteq> visited")
  case True
  then have "visited \<union> set deps = visited"
    by auto
  then show ?thesis
    using True by (simp add: fresh_dependents_Nil)
next
  case False
  then obtain d where d: "d \<in> set deps" "d \<notin> visited"
    by auto
  have "dependents_in graph - (visited \<union> set deps) \<subset> dependents_in graph - visited"
    using d assms by auto
  then have "card (dependents_in graph - (visited \<union> set deps)) < card (dependents_in graph - visited)"
    by (intro psubset_card_mono) (simp_all add: finite_dependents_in)
  then show ?thesis by simp
qed

termination blast_loop
proof (relation "inv_image (less_than <*lex*> less_than)
    (\<lambda>(graph, visited, queue, n). (card (dependents_in graph - visited), length queue))")
  show "wf (inv_image (less_than <*lex*> less_than)
    (\<lambda>(graph, visited, queue, n). (card (dependents_in graph - visited), length (queue :: string list))))"
    by (intro wf_inv_image wf_lex_prod wf_less_than)
next
  fix graph :: graph and visited :: "string set" and current :: string
    and queue :: "string list" and n :: nat
  show "((graph, visited, queue, n), (graph, visited, current # queue, n))
      \<in> inv_image (less_than <*lex*> less_than)
          (\<lambda>(graph, visited, queue, n). (card (dependents_in graph - visited), length queue))"
    by simp
next
  fix graph :: graph and visited :: "string set" and current :: string
    and queue :: "string list" and n :: nat
  show "((graph, visit_dependents [] (visited, queue, n)), (graph, visited, current # queue, n))
      \<in> inv_image (less_than <*lex*> less_than)
          (\<lambda>(graph, visited, queue, n). (card (dependents_in graph - visited), length queue))"
    by simp
next
  fix graph :: graph and visited :: "string set" and current queue and n :: nat and node
  assume "js_lookup graph current = Own node"
  then have "obj_get graph current = Some node"
    by (simp add: js_lookup_Own)
  then have "set (requiredBy node) \<subseteq> dependents_in graph"
    by (rule requiredBy_dependents_in)
  from traversal_decreases [OF this, of visited queue]
  show "((graph, visit_dependents (requiredBy node) (visited, queue, n)),
         (graph, visited, current # queue, n))
      \<in> inv_image (less_than <*lex*> less_than)
          (\<lambda>(graph, visited, queue, n). (card (dependents_in graph - visited), length queue))"
    by (simp add: visit_dependents_eq)
qed

termination listing_loop
proof (relation "inv_image (less_than <*lex*> less_than)
    (\<lambda>(graph, visited, queue, impacted). (card (dependents_in graph - visited), length queue))")
  show "wf (inv_image (less_than <*lex*> less_than)
    (\<lambda>(graph, visited, queue, impacted :: string list).
        (card (dependents_in graph - visited), length (queue :: string list))))"
    by (intro wf_inv_image wf_lex_prod wf_less_than)
next
  fix graph :: graph and visited :: "string set" and current queue and impacted :: "string list"
  assume "obj_get graph current = None"
  show "((graph, visited, queue, impacted), (graph, visited, current # queue, impacted))
      \<in> inv_image (less_than <*lex*> less_than)
          (\<lambda>(graph, visited, queue, impacted). (card (dependents_in graph - visited), length queue))"
    by simp
next
  fix graph :: graph and visited :: "string set" and current queue
    and impacted :: "string list" and node
  assume "obj_get graph current = Some node"
  then have "set (requiredBy node) \<subseteq> dependents_in graph"
    by (rule requiredBy_dependents_in)
  from traversal_decreases [OF this, of visited queue]
  show "((graph, list_dependents (requiredBy node) (visited, queue, impacted)),
         (graph, visited, current # queue, impacted))
      \<in> inv_image (less_than <*lex*> less_than)
          (\<lambda>(graph, visited, queue, impacted). (card (dependents_in graph - visited), length queue))"
    by (simp add: list_dependents_eq)
qed

termination impacted_loop
proof (relation "inv_image (less_than <*lex*> less_than)
    (\<lambda>(graph, visited, queue, impacted). (card (dependents_in graph - visited), length queue))")
  show "wf (inv_image (less_than <*lex*> less_than)
    (\<lambda>(graph, visited, queue, impacted :: string list).
        (card (dependents_in graph - visited), length (queue :: string list))))"
    by (intro wf_inv_image wf_lex_prod wf_less_than)
next
  fix graph :: graph and visited :: "string set" and current :: string
    and queue impacted :: "string list"
  show "((graph, visited, queue, impacted), (graph, visited, current # queue, impacted))
      \<in> inv_image (less_than <*lex*> less_than)
          (\<lambda>(graph, visited, queue, impacted). (card (dependents_in graph - visited), length queue))"
    by simp
next
  fix graph :: graph and visited :: "string set" and current :: string
    and queue impacted :: "string list"
  show "((graph, collect_dependents [] (visited, queue, impacted)),
         (graph, visited, current # queue, impacted))
      \<in> inv_image (less_than <*lex*> less_than)
          (\<lambda>(graph, visited, queue, impacted). (card (dependents_in graph - visited), length queue))"
    by simp
next
  fix graph :: graph and visited :: "string set" and current queue
    and impacted :: "string list" and node
  assume "js_lookup graph current = Own node"
  then have "obj_get graph current = Some node"
    by (simp add: js_lookup_Own)
  then have "set (requiredBy node) \<subseteq> dependents_in graph"
    by (rule requiredBy_dependents_in)
  then have "set (filter ordinary (requiredBy node)) \<subseteq> dependents_in graph"
    by auto
  from traversal_decreases [OF this, of visited queue]
  show "((graph, collect_dependents (requiredBy node) (visited, queue, impacted)),
         (graph, visited, current # queue, impacted))
      \<in> inv_image (less_than <*lex*> less_than)
          (\<lambda>(graph, visited, queue, impacted). (card (dependents_in graph - visited), length queue))"
    by (simp add: collect_dependents_filter list_dependents_eq)
qed

lemma blast_loop_length:
  "blast_loop graph (visited, queue, length impacted) =
     length (listing_loop graph (visited, queue, impacted))"
proof (induction graph "(visited, queue, impacted)" arbitrary: visited queue impacted
    rule: listing_loop.induct)
  case (1 graph visited impacted)
  show ?case by simp
next
  case (2 graph visited current queue impacted)
  show ?case
  proof (cases "obj_get graph current")
    case None
    have "blast_loop graph (visited, current # queue, length impacted) =
        blast_loop graph (visited, queue, length impacted)"
      using None by (simp add: js_lookup_def)
    then show ?thesis using "2.hyps"(1) [OF None] None by simp
  next
    case (Some node)
    have l: "js_lookup graph current = Own node"
      using Some by (simp add: js_lookup_Own)
    have "blast_loop graph (visited \<union> set (requiredBy node),
            queue @ fresh_dependents visited (requiredBy node),
            length (impacted @ fresh_dependents visited (requiredBy node))) =
          length (listing_loop graph (visited \<union> set (requiredBy node),
            queue @ fresh_dependents visited (requiredBy node),
            impacted @ fresh_dependents visited (requiredBy node)))"
      by (rule "2.hyps"(2) [OF Some]) (simp add: list_dependents_eq)
    then show ?thesis
      using Some l by (simp add: visit_dependents_eq list_dependents_eq)
  qed
qed

lemma bfs_inv_final:
  assumes "bfs_inv graph start (visited, [], impacted)"
  shows "distinct impacted \<and> set impacted = spec_blast_set graph start"
proof -
  from assms have v: "visited = insert start (set impacted)" and d: "distinct impacted"
    and s: "start \<notin> set impacted"
    and sub: "visited \<subseteq> (requiredBy_rel graph)\<^sup>* `` {start}"
    and closed: "\<forall>a \<in> visited. set (reqs_of graph a) \<subseteq> visited"
    unfolding bfs_inv_def by auto
  have "b \<in> visited" if "(start, b) \<in> (requiredBy_rel graph)\<^sup>*" for b
    using that
  proof (induction rule: rtrancl_induct)
    case base
    show ?case by (simp add: v)
  next
    case (step b c)
    then have "c \<in> set (reqs_of graph b)"
      by (simp add: requiredBy_rel_def)
    with step.IH closed show ?case by blast
  qed
  then have "(requiredBy_rel graph)\<^sup>* `` {start} \<subseteq> visited"
    by auto
  with sub have "visited = (requiredBy_rel graph)\<^sup>* `` {start}"
    by auto
  then have "set impacted = spec_blast_set graph start"
    using v s by (auto simp: spec_blast_set_def)
  with d show ?thesis by simp
qed

lemma bfs_inv_skip:
  assumes "bfs_inv graph start (visited, current # queue, impacted)"
    and "obj_get graph current = None"
  shows "bfs_inv graph start (visited, queue, impacted)"
proof -
  have empty: "reqs_of graph current = []"
    using assms(2) by (simp add: reqs_of_def)
  from assms(1) have v: "visited = insert start (set impacted)" "distinct impacted"
      "start \<notin> set impacted" "set queue \<subseteq> visited"
      "visited \<subseteq> (requiredBy_rel graph)\<^sup>* `` {start}"
    and closed: "\<forall>a \<in> visited - set (current # queue). set (reqs_of graph a) \<subseteq> visited"
    unfolding bfs_inv_def by auto
  have "set (reqs_of graph a) \<subseteq> visited" if "a \<in> visited - set queue" for a
  proof (cases "a = current")
    case True
    then show ?thesis by (simp add: empty)
  next
    case False
    with that closed show ?thesis by auto
  qed
  then show ?thesis
    unfolding bfs_inv_def prod.case using v by blast
qed

lemma bfs_inv_visit:
  assumes inv: "bfs_inv graph start (visited, current # queue, impacted)"
    and node: "obj_get graph current = Some node"
  shows "bfs_inv graph start
     (visited \<union> set (requiredBy node),
      queue @ fresh_dependents visited (requiredBy node),
      impacted @ fresh_dependents visited (requiredBy node))"
proof -
  let ?ds = "requiredBy node"
  let ?new = "fresh_dependents visited ?ds"
  from inv have v: "visited = insert start (set impacted)" and d: "distinct impacted"
    and s: "start \<notin> set impacted"
    and q: "current \<in> visited" "set queue \<subseteq> visited"
    and sub: "visited \<subseteq> (requiredBy_rel graph)\<^sup>* `` {start}"
    and closed: "\<forall>a \<in> visited - set (current # queue). set (reqs_of graph a) \<subseteq> visited"
    unfolding bfs_inv_def by auto
  have ds: "reqs_of graph current = ?ds"
    using node by (simp add: reqs_of_def)
  have new: "set ?new = set ?ds - visited" and dnew: "distinct ?new"
    by (simp_all add: set_fresh_dependents distinct_fresh_dependents)
  have 1: "visited \<union> set ?ds = insert start (set (impacted @ ?new))"
    using v new by auto
  have 2: "distinct (impacted @ ?new)"
    using d dnew new v by auto
  have 3: "start \<notin> set (impacted @ ?new)"
    using s new v by auto
  have 4: "set (queue @ ?new) \<subseteq> visited \<union> set ?ds"
    using q new by auto
  have reach: "(start, current) \<in> (requiredBy_rel graph)\<^sup>*"
    using q(1) sub by auto
  have "b \<in> (requiredBy_rel graph)\<^sup>* `` {start}" if "b \<in> set ?ds" for b
  proof -
    have "(current, b) \<in> requiredBy_rel graph"
      using that ds by (simp add: requiredBy_rel_def)
    with reach have "(start, b) \<in> (requiredBy_rel graph)\<^sup>*"
      by (rule rtrancl_into_rtrancl)
    then show ?thesis by simp
  qed
  then have 5: "visited \<union> set ?ds \<subseteq> (requiredBy_rel graph)\<^sup>* `` {start}"
    using sub by auto
  have 6: "set (reqs_of graph a) \<subseteq> visited \<union> set ?ds"
    if "a \<in> (visited \<union> set ?ds) - set (queue @ ?new)" for a
  proof (cases "a = current")
    case True
    then show ?thesis using ds by simp
  next
    case False
    from that new have "a \<in> visited" "a \<notin> set queue"
      by auto
    with False closed have "set (reqs_of graph a) \<subseteq> visited"
      by auto
    then show ?thesis by auto
  qed
  show ?thesis
    unfolding bfs_inv_def prod.case using 1 2 3 4 5 6 by blast
qed

lemma listing_loop_correct:
  "bfs_inv graph start (visited, queue, impacted) \<Longrightarrow>
     distinct (listing_loop graph (visited, queue, impacted))
     \<and> set (listing_loop graph (visited, queue, impacted)) = spec_blast_set graph start"
proof (induction graph "(visited, queue, impacted)" arbitrary: visited queue impacted
    rule: listing_loop.induct)
  case (1 graph visited impacted)
  then show ?case
    using bfs_inv_final by simp
next
  case (2 graph visited current queue impacted)
  show ?case
  proof (cases "obj_get graph current")
    case None
    have "bfs_inv graph start (visited, queue, impacted)"
      using "2.prems" None by (rule bfs_inv_skip)
    then show ?thesis
      using "2.hyps"(1) [OF None] None by simp
  next
    case (Some node)
    have "bfs_inv graph start
       (visited \<union> set (requiredBy node),
        queue @ fresh_dependents visited (requiredBy node),
        impacted @ fresh_dependents visited (requiredBy node))"
      using "2.prems" Some by (rule bfs_inv_visit)
    then show ?thesis
      using "2.hyps"(2) [OF Some, of "visited \<union> set (requiredBy node)"
          "queue @ fresh_dependents visited (requiredBy node)"
          "impacted @ fresh_dependents visited (requiredBy node)"] Some
      by (simp add: list_dependents_eq)
  qed
qed

lemma bfs_inv_start: "bfs_inv graph start ({start}, [start], [])"
  by (simp add: bfs_inv_def)

text \<open>
  On a graph whose \<^verbatim>\<open>requiredBy\<close> entries are ordinary names, the traversal of
  \<^verbatim>\<open>getImpactedServices\<close> collects what the traversal of \<^verbatim>\<open>getBlastRadius\<close> lists.
\<close>

lemma impacted_loop_listing:
  "ordinary_graph graph \<Longrightarrow>
     impacted_loop graph (visited, queue, impacted) = listing_loop graph (visited, queue, impacted)"
proof (induction graph "(visited, queue, impacted)" arbitrary: visited queue impacted
    rule: listing_loop.induct)
  case (1 graph visited listed)
  show ?case by simp
next
  case (2 graph visited current queue listed)
  show ?case
  proof (cases "obj_get graph current")
    case None
    have "impacted_loop graph (visited, current # queue, listed) =
        impacted_loop graph (visited, queue, listed)"
      using None by (simp add: js_lookup_def)
    then show ?thesis
      using "2.hyps"(1) [OF None "2.prems"] None by simp
  next
    case (Some node)
    have l: "js_lookup graph current = Own node"
      using Some by (simp add: js_lookup_Own)
    have "reqs_of graph current = requiredBy node"
      using Some by (simp add: reqs_of_def)
    then have "\<forall>d \<in> set (requiredBy node). ordinary d"
      using "2.prems" unfolding ordinary_graph_def by metis
    then have c: "collect_dependents (requiredBy node) (visited, queue, listed) =
        list_dependents (requiredBy node) (visited, queue, listed)"
      by (rule collect_dependents_ordinary)
    have "impacted_loop graph (visited \<union> set (requiredBy node),
            queue @ fresh_dependents visited (requiredBy node),
            listed @ fresh_dependents visited (requiredBy node)) =
          listing_loop graph (visited \<union> set (requiredBy node),
            queue @ fresh_dependents visited (requiredBy node),
            listed @ fresh_dependents visited (requiredBy node))"
      using "2.prems" by (intro "2.hyps"(2) [OF Some]) (simp_all add: list_dependents_eq)
    then show ?thesis
      using Some l c by (simp add: list_dependents_eq)
  qed
qed

text \<open>
  C5. \<open>blast_loop\<close> and \<open>impacted_loop\<close> are total: every iteration either visits an
  id that occurs in a \<^verbatim>\<open>requiredBy\<close> list and was not visited before, or shortens the
  queue, so the traversal terminates on every graph, cyclic or not. For every graph and
  start id, \<open>getBlastRadius\<close> returns the number of distinct ids, other than the start,
  that are reachable from the start along \<^verbatim>\<open>requiredBy\<close>, a finite set. Whenever
  \<open>getDependencyGraph\<close> returns a graph for the registry, \<open>getImpactedServices\<close>
  returns a list of exactly those ids in that graph, each once and without the start.
\<close>

theorem getBlastRadius_counts_reachable:
  "getBlastRadius start graph = card (spec_blast_set graph start)
   \<and> finite (spec_blast_set graph start)
   \<and> (getDependencyGraph ENDPOINTS = Some g \<longrightarrow>
        (\<exists>impacted. getImpactedServices ENDPOINTS downId = Some impacted
           \<and> distinct impacted \<and> downId \<notin> set impacted
           \<and> set impacted = spec_blast_set g downId
           \<and> getBlastRadius downId g = length impacted))"
proof -
  have loop: "distinct (listing_loop g ({a}, [a], []))
      \<and> set (listing_loop g ({a}, [a], [])) = spec_blast_set g a" for g a
    using listing_loop_correct [OF bfs_inv_start] .
  have len: "getBlastRadius a g = length (listing_loop g ({a}, [a], []))" for g a
    using blast_loop_length [of g "{a}" "[a]" "[]"] by (simp add: getBlastRadius_def)
  define res where "res = listing_loop graph ({start}, [start], [])"
  have res: "distinct res" "set res = spec_blast_set graph start"
    "getBlastRadius start graph = length res"
    using loop [of graph start] len [of start graph] unfolding res_def by blast+
  have 1: "getBlastRadius start graph = card (spec_blast_set graph start)"
    using res distinct_card [of res] by simp
  have 2: "finite (spec_blast_set graph start)"
    using res(2) finite_set [of res] by simp
  have 3: "getDependencyGraph ENDPOINTS = Some g \<longrightarrow>
        (\<exists>impacted. getImpactedServices ENDPOINTS downId = Some impacted
           \<and> distinct impacted \<and> downId \<notin> set impacted
           \<and> set impacted = spec_blast_set g downId
           \<and> getBlastRadius downId g = length impacted)"
  proof (rule impI)
    assume g: "getDependencyGraph ENDPOINTS = Some g"
    then have "ordinary_graph g"
      by (rule ordinary_graph_getDependencyGraph)
    then have same: "impacted_loop g ({downId}, [downId], []) =
        listing_loop g ({downId}, [downId], [])"
      by (rule impacted_loop_listing)
    define impacted where "impacted = listing_loop g ({downId}, [downId], [])"
    have imp: "distinct impacted" "set impacted = spec_blast_set g downId"
      "getBlastRadius downId g = length impacted"
      using loop [of g downId] len [of downId g] unfolding impacted_def by blast+
    have "getImpactedServices ENDPOINTS downId = Some impacted"
      using g same by (simp add: getImpactedServices_def impacted_def)
    moreover have "downId \<notin> set impacted"
      using imp(2) by (simp add: spec_blast_set_def)
    ultimately show "\<exists>impacted. getImpactedServices ENDPOINTS downId = Some impacted
           \<and> distinct impacted \<and> downId \<notin> set impacted
           \<and> set impacted = spec_blast_set g downId
           \<and> getBlastRadius downId g = length impacted"
      using imp by blast
  qed
  show ?thesis
    by (rule conjI [OF 1 conjI [OF 2 3]])
qed

theorem getBlastRadius_counts_reachable_witness:
  "getBlastRadius ''A'' cyclic_graph = 2
   \<and> card (spec_blast_set cyclic_graph ''A'') = 2
   \<and> getDependencyGraph [dep_endpoint ''A'' [''B''] [], dep_endpoint ''B'' [''A''] [''C'']]
      = Some [(''A'', \<lparr>dependsOn = [''B''], requiredBy = [''B'']\<rparr>),
              (''B'', \<lparr>dependsOn = [''A''], requiredBy = [''A'', ''C'']\<rparr>),
              (''C'', \<lparr>dependsOn = [''B''], requiredBy = []\<rparr>)]
   \<and> getImpactedServices
        [dep_endpoint ''A'' [''B''] [], dep_endpoint ''B'' [''A''] [''C'']] ''A''
      = Some [''B'', ''C'']
   \<and> spec_blast_set [(''A'', \<lparr>dependsOn = [''B''], requiredBy = [''B'']\<rparr>),
              (''B'', \<lparr>dependsOn = [''A''], requiredBy = [''A'', ''C'']\<rparr>),
              (''C'', \<lparr>dependsOn = [''B''], requiredBy = []\<rparr>)] ''A'' = {''B'', ''C''}
   \<and> getBlastRadius ''A'' [(''A'', \<lparr>dependsOn = [''B''], requiredBy = [''B'']\<rparr>),
              (''B'', \<lparr>dependsOn = [''A''], requiredBy = [''A'', ''C'']\<rparr>),
              (''C'', \<lparr>dependsOn = [''B''], requiredBy = []\<rparr>)] = 2"
proof -
  let ?E = "[dep_endpoint ''A'' [''B''] [], dep_endpoint ''B'' [''A''] [''C'']]"
  let ?G = "[(''A'', \<lparr>dependsOn = [''B''], requiredBy = [''B'']\<rparr>),
              (''B'', \<lparr>dependsOn = [''A''], requiredBy = [''A'', ''C'']\<rparr>),
              (''C'', \<lparr>dependsOn = [''B''], requiredBy = []\<rparr>)]"
  note T = getBlastRadius_counts_reachable [of "''A''" cyclic_graph ?E ?G "''A''"]
  have r: "getBlastRadius ''A'' cyclic_graph = 2"
    by code_simp
  have c: "card (spec_blast_set cyclic_graph ''A'') = 2"
    using T r by simp
  have b: "getDependencyGraph ?E = Some ?G"
    by code_simp
  have i: "getImpactedServices ?E ''A'' = Some [''B'', ''C'']"
    by code_simp
  from T b obtain impacted where
    m: "getImpactedServices ?E ''A'' = Some impacted"
      "set impacted = spec_blast_set ?G ''A''"
      "getBlastRadius ''A'' ?G = length impacted"
    by blast
  have "impacted = [''B'', ''C'']"
    using m(1) i by simp
  then have s: "spec_blast_set ?G ''A'' = {''B'', ''C''}" and n: "getBlastRadius ''A'' ?G = 2"
    using m(2,3) by simp_all
  show ?thesis
    using r c b i s n by blast
qed

end
